theory Spec2Isabelle
  imports Complex_Main "HOL-Library.Word"
begin

unbundle bit_operations_syntax

section \<open>Conventions of the embedding\<close>

text \<open>
  The core engine is C++ on a 64-bit target. \<open>size_t\<close> and \<open>uint64_t\<close> are \<open>64 word\<close>,
  \<open>uint32_t\<close> is \<open>32 word\<close>; arithmetic on them wraps as the hardware does.

  A \<open>double\<close> that the engine is given (an order, a configuration, a price feed, a
  market or inventory snapshot) is a finite number, modelled by a \<open>real\<close> with the
  exact operations and comparisons; rounding is not modelled. Where the code divides by
  a number it is given, the divisor can be zero and the quotient an infinity or a NaN:
  that quotient, and every value computed from it, is a \<open>dbl\<close> (section
  \<open>Doubles with special values\<close>), with the arithmetic and the comparisons of IEEE 754.

  A result of type \<open>option\<close> around a whole operation is \<open>None\<close> exactly where the C++
  run has undefined behaviour: an access outside an allocated buffer.

  A \<open>std::array<T, N>\<close> member is a function on indices; the code reduces every index
  modulo \<open>N\<close> or checks it against \<open>N\<close> before the access. Members are named after the
  C++ ones, with a short prefix for the class in place of the trailing underscore.

  Atomics are read and written as plain fields: every operation below is one
  sequential step on the state it is given, and takes the clock readings it would
  make as arguments.
\<close>

section \<open>Ring buffer (\<open>include/ring_buffer.h\<close>)\<close>

text \<open>
  Field names of the C++ class end in an underscore, which Isabelle identifiers cannot:
  \<open>buffer_\<close>, \<open>capacity_\<close> and \<open>mask_\<close> are \<open>rb_buffer\<close>, \<open>rb_capacity\<close> and \<open>rb_mask\<close>;
  \<open>head\<close> and \<open>tail\<close> are \<open>producer_.head\<close> and \<open>consumer_.tail\<close>.
\<close>

record 'a RingBuffer =
  head :: "64 word"
  tail :: "64 word"
  rb_buffer :: "'a list"
  rb_capacity :: "64 word"
  rb_mask :: "64 word"

definition next_power_of_two :: "64 word \<Rightarrow> 64 word" where
  "next_power_of_two n0 =
     (let n = n0 - 1;
          n = n OR drop_bit 1 n;
          n = n OR drop_bit 2 n;
          n = n OR drop_bit 4 n;
          n = n OR drop_bit 8 n;
          n = n OR drop_bit 16 n;
          n = n OR drop_bit 32 n
      in n + 1)"

text \<open>
  The constructor: \<open>make_unique<T[]>(n)\<close> value-initialises \<open>n\<close> slots; \<open>d\<close> is that
  initial slot value.
\<close>

definition RingBuffer_new :: "'a \<Rightarrow> 64 word \<Rightarrow> 'a RingBuffer" where
  "RingBuffer_new d capacity =
     \<lparr> head = 0, tail = 0,
       rb_buffer = replicate (unat (next_power_of_two capacity)) d,
       rb_capacity = next_power_of_two capacity,
       rb_mask = next_power_of_two capacity - 1 \<rparr>"

text \<open>
  \<open>push\<close> returns the boolean of the C++ call and the ring after it. The slot write
  at \<open>current_head\<close> is checked against the allocation.
\<close>

definition push :: "'a RingBuffer \<Rightarrow> 'a \<Rightarrow> (bool \<times> 'a RingBuffer) option" where
  "push r item =
     (let current_head = head r;
          next_head = (current_head + 1) AND rb_mask r
      in if next_head = tail r then Some (False, r)
         else if unat current_head < length (rb_buffer r)
         then Some (True, r\<lparr> rb_buffer := (rb_buffer r)[unat current_head := item],
                             head := next_head \<rparr>)
         else None)"

text \<open>
  \<open>pop\<close> returns \<open>Some x\<close> for a call that returned true and stored \<open>x\<close> in \<open>item\<close>,
  \<open>None\<close> for a call that returned false (and left \<open>item\<close> alone).
\<close>

definition pop :: "'a RingBuffer \<Rightarrow> ('a option \<times> 'a RingBuffer) option" where
  "pop r =
     (let current_tail = tail r
      in if current_tail = head r then Some (None, r)
         else if unat current_tail < length (rb_buffer r)
         then Some (Some (rb_buffer r ! unat current_tail),
                    r\<lparr> tail := (current_tail + 1) AND rb_mask r \<rparr>)
         else None)"

definition size_rb :: "'a RingBuffer \<Rightarrow> 64 word" where
  "size_rb r = (head r - tail r) AND rb_mask r"

definition empty_rb :: "'a RingBuffer \<Rightarrow> bool" where
  "empty_rb r = (head r = tail r)"

definition capacity :: "'a RingBuffer \<Rightarrow> 64 word" where
  "capacity r = rb_capacity r"

subsection \<open>Runs of calls\<close>

text \<open>
  \<open>push_seq r xs\<close> pushes the elements of \<open>xs\<close> one after the other and collects the
  booleans returned; \<open>pop_seq n r\<close> calls \<open>pop\<close> \<open>n\<close> times and collects the results.
\<close>

fun push_seq :: "'a RingBuffer \<Rightarrow> 'a list \<Rightarrow> (bool list \<times> 'a RingBuffer) option" where
  "push_seq r [] = Some ([], r)"
| "push_seq r (x # xs) =
     (case push r x of
        None \<Rightarrow> None
      | Some (b, r') \<Rightarrow>
          (case push_seq r' xs of
             None \<Rightarrow> None
           | Some (bs, r'') \<Rightarrow> Some (b # bs, r'')))"

fun pop_seq :: "nat \<Rightarrow> 'a RingBuffer \<Rightarrow> ('a option list \<times> 'a RingBuffer) option" where
  "pop_seq 0 r = Some ([], r)"
| "pop_seq (Suc n) r =
     (case pop r of
        None \<Rightarrow> None
      | Some (y, r') \<Rightarrow>
          (case pop_seq n r' of
             None \<Rightarrow> None
           | Some (ys, r'') \<Rightarrow> Some (y # ys, r'')))"

text \<open>The queued elements, oldest first: the slots from \<open>tail\<close> up to \<open>head\<close>.\<close>

definition contents :: "'a RingBuffer \<Rightarrow> 'a list" where
  "contents r =
     map (\<lambda>i. rb_buffer r ! unat ((tail r + of_nat i) AND rb_mask r)) [0..<unat (size_rb r)]"

text \<open>
  The rings a program can hold: built by the constructor from a request between 1 and
  \<open>2 ^ 63\<close> (beyond it, and at 0, the rounding wraps to a capacity of 0 and nothing is
  allocated), then used through \<open>push\<close> and \<open>pop\<close>.
\<close>

inductive reachable :: "'a RingBuffer \<Rightarrow> bool" where
  reachable_new: "0 < n \<Longrightarrow> n \<le> 2 ^ 63 \<Longrightarrow> reachable (RingBuffer_new d n)"
| reachable_push: "reachable r \<Longrightarrow> push r x = Some (b, r') \<Longrightarrow> reachable r'"
| reachable_pop: "reachable r \<Longrightarrow> pop r = Some (y, r') \<Longrightarrow> reachable r'"

text \<open>
  The ring invariant: the capacity is a power of two below \<open>2 ^ 64\<close>, the mask is the
  capacity minus one, the buffer has capacity slots, and both indices are in range.
\<close>

definition wf_ring :: "'a RingBuffer \<Rightarrow> bool" where
  "wf_ring r \<longleftrightarrow>
     (\<exists>k\<in>{0..<64}. rb_capacity r = 2 ^ k \<and> rb_mask r = mask k \<and>
        length (rb_buffer r) = 2 ^ k \<and> unat (head r) < 2 ^ k \<and> unat (tail r) < 2 ^ k)"

text \<open>
  The ring-wrap scenario: a ring requested with capacity 4, a first run of pushes, two
  pops, a second run of pushes. The result lists what each call returned.
\<close>

definition ring_wrap :: "'a \<Rightarrow> 'a list \<Rightarrow> 'a list \<Rightarrow> (bool list \<times> 'a option list \<times> bool list) option" where
  "ring_wrap d xs ys =
     (case push_seq (RingBuffer_new d 4) xs of
        None \<Rightarrow> None
      | Some (bs, r1) \<Rightarrow>
          (case pop_seq 2 r1 of
             None \<Rightarrow> None
           | Some (ps, r2) \<Rightarrow>
               (case push_seq r2 ys of
                  None \<Rightarrow> None
                | Some (cs, r3) \<Rightarrow> Some (bs, ps, cs))))"

section \<open>Doubles with special values\<close>

text \<open>
  A finite double, the two infinities, or NaN. The operations are those of IEEE 754
  without rounding; the zero is the positive one. Every comparison with a NaN is false.
\<close>

datatype dbl = Fin real | PInf | NInf | NaN

fun dneg :: "dbl \<Rightarrow> dbl" where
  "dneg (Fin a) = Fin (- a)"
| "dneg PInf = NInf"
| "dneg NInf = PInf"
| "dneg NaN = NaN"

fun dabs :: "dbl \<Rightarrow> dbl" where
  "dabs (Fin a) = Fin \<bar>a\<bar>"
| "dabs PInf = PInf"
| "dabs NInf = PInf"
| "dabs NaN = NaN"

fun dadd :: "dbl \<Rightarrow> dbl \<Rightarrow> dbl" where
  "dadd (Fin a) (Fin b) = Fin (a + b)"
| "dadd NaN _ = NaN"
| "dadd _ NaN = NaN"
| "dadd PInf NInf = NaN"
| "dadd NInf PInf = NaN"
| "dadd PInf _ = PInf"
| "dadd _ PInf = PInf"
| "dadd NInf _ = NInf"
| "dadd _ NInf = NInf"

definition dsub :: "dbl \<Rightarrow> dbl \<Rightarrow> dbl" where
  "dsub a b = dadd a (dneg b)"

fun dmul :: "dbl \<Rightarrow> dbl \<Rightarrow> dbl" where
  "dmul (Fin a) (Fin b) = Fin (a * b)"
| "dmul NaN _ = NaN"
| "dmul _ NaN = NaN"
| "dmul PInf (Fin b) = (if b > 0 then PInf else if b < 0 then NInf else NaN)"
| "dmul NInf (Fin b) = (if b > 0 then NInf else if b < 0 then PInf else NaN)"
| "dmul (Fin a) PInf = (if a > 0 then PInf else if a < 0 then NInf else NaN)"
| "dmul (Fin a) NInf = (if a > 0 then NInf else if a < 0 then PInf else NaN)"
| "dmul PInf PInf = PInf"
| "dmul PInf NInf = NInf"
| "dmul NInf PInf = NInf"
| "dmul NInf NInf = PInf"

fun ddiv :: "dbl \<Rightarrow> dbl \<Rightarrow> dbl" where
  "ddiv (Fin a) (Fin b) =
     (if b \<noteq> 0 then Fin (a / b)
      else if a > 0 then PInf else if a < 0 then NInf else NaN)"
| "ddiv NaN _ = NaN"
| "ddiv _ NaN = NaN"
| "ddiv (Fin a) PInf = Fin 0"
| "ddiv (Fin a) NInf = Fin 0"
| "ddiv PInf (Fin b) = (if b \<ge> 0 then PInf else NInf)"
| "ddiv NInf (Fin b) = (if b \<ge> 0 then NInf else PInf)"
| "ddiv PInf PInf = NaN"
| "ddiv PInf NInf = NaN"
| "ddiv NInf PInf = NaN"
| "ddiv NInf NInf = NaN"

fun dlt :: "dbl \<Rightarrow> dbl \<Rightarrow> bool" where
  "dlt (Fin a) (Fin b) = (a < b)"
| "dlt NaN _ = False"
| "dlt _ NaN = False"
| "dlt NInf NInf = False"
| "dlt NInf _ = True"
| "dlt _ NInf = False"
| "dlt PInf _ = False"
| "dlt _ PInf = True"

fun dle :: "dbl \<Rightarrow> dbl \<Rightarrow> bool" where
  "dle (Fin a) (Fin b) = (a \<le> b)"
| "dle NaN _ = False"
| "dle _ NaN = False"
| "dle NInf _ = True"
| "dle _ PInf = True"
| "dle _ _ = False"

definition dgt :: "dbl \<Rightarrow> dbl \<Rightarrow> bool" where
  "dgt a b = dlt b a"

definition dge :: "dbl \<Rightarrow> dbl \<Rightarrow> bool" where
  "dge a b = dle b a"

text \<open>\<open>std::min(a, b)\<close> is \<open>(b < a) ? b : a\<close> and \<open>std::max(a, b)\<close> is \<open>(a < b) ? b : a\<close>.\<close>

definition std_min :: "dbl \<Rightarrow> dbl \<Rightarrow> dbl" where
  "std_min a b = (if dlt b a then b else a)"

definition std_max :: "dbl \<Rightarrow> dbl \<Rightarrow> dbl" where
  "std_max a b = (if dlt a b then b else a)"

section \<open>Domain types (\<open>include/types.h\<close>)\<close>

datatype Side = BUY | SELL

datatype OrderType = MARKET | LIMIT | STOP | STOP_LIMIT | TAKE_PROFIT | TAKE_PROFIT_LIMIT

datatype OrderStatus = NEW | PARTIALLY_FILLED | FILLED | CANCELED | REJECTED | EXPIRED

datatype TimeInForce = GTC | IOC | FOK | GTX

datatype ExchangeType =
  BINANCE_SPOT | BINANCE_FUTURES | BYBIT_SPOT | BYBIT_FUTURES | OKX_SPOT | OKX_FUTURES | UPBIT

text \<open>
  \<open>struct Order\<close>. The fields \<open>id\<close> and \<open>type\<close> are \<open>order_id\<close> and \<open>order_type\<close>; the two
  timestamps count microseconds.
\<close>

record Order =
  order_id :: "64 word"
  client_order_id :: string
  exchange :: ExchangeType
  symbol :: string
  side :: Side
  order_type :: OrderType
  price :: real
  quantity :: real
  executed_quantity :: real
  status :: OrderStatus
  time_in_force :: TimeInForce
  created_at :: int
  updated_at :: int

text \<open>A value-initialised \<open>Order\<close>, as \<open>make_unique<Order[]>\<close> fills a venue queue with.\<close>

definition default_order :: Order where
  "default_order =
     \<lparr> order_id = 0, client_order_id = [], exchange = BINANCE_SPOT, symbol = [], side = BUY,
       order_type = MARKET, price = 0, quantity = 0, executed_quantity = 0, status = NEW,
       time_in_force = GTC, created_at = 0, updated_at = 0 \<rparr>"

section \<open>Risk engine (\<open>src/risk/risk_engine.cpp\<close>)\<close>

record PositionInfo =
  pos_quantity :: real
  pos_value :: real
  pos_avg_price :: real

record RiskConfig =
  max_position_value :: real
  max_order_value :: real
  daily_loss_limit :: real
  max_open_orders :: int
  max_leverage :: real

definition RiskConfig_new :: RiskConfig where
  "RiskConfig_new =
     \<lparr> max_position_value = 100000, max_order_value = 10000, daily_loss_limit = 5000,
       max_open_orders = 100, max_leverage = 10 \<rparr>"

definition MAX_SYMBOLS :: "64 word" where
  "MAX_SYMBOLS = 1000"

text \<open>
  The members of \<open>class RiskEngine\<close>, prefix \<open>re\<close>. \<open>open_orders_\<close> and \<open>max_open_orders\<close>
  are C++ \<open>int\<close>s that \<open>checkOrder\<close> only compares.
\<close>

record RiskEngine =
  re_config :: RiskConfig
  re_positions :: "nat \<Rightarrow> PositionInfo"
  re_daily_pnl :: real
  re_open_orders :: int
  re_total_checks :: "64 word"
  re_total_latency_ns :: "64 word"
  re_running :: bool

text \<open>
  \<open>RiskEngine::log\<close> keeps its lines in a function-local static ring of 1000 strings,
  shared by all engines of the process. A line is its text and the number that
  \<open>std::to_string\<close> appends to it.
\<close>

datatype log_arg = NoArg | RealArg real | IntArg int

record LogState =
  log_index :: "64 word"
  log_buffer :: "nat \<Rightarrow> string \<times> log_arg"

definition LogState_new :: LogState where
  "LogState_new = \<lparr> log_index = 0, log_buffer = (\<lambda>_. ([], NoArg)) \<rparr>"

definition log_re :: "LogState \<Rightarrow> string \<times> log_arg \<Rightarrow> LogState" where
  "log_re l message =
     (let idx = unat (log_index l mod 1000)
      in l\<lparr> log_index := log_index l + 1,
            log_buffer := (log_buffer l)(idx := (''[RiskEngine] '' @ fst message, snd message)) \<rparr>)"

definition RiskEngine_new :: "RiskConfig \<Rightarrow> RiskEngine" where
  "RiskEngine_new config =
     \<lparr> re_config = config,
       re_positions = (\<lambda>_. \<lparr> pos_quantity = 0, pos_value = 0, pos_avg_price = 0 \<rparr>),
       re_daily_pnl = 0,
       re_open_orders = 0,
       re_total_checks = 0,
       re_total_latency_ns = 0,
       re_running = False \<rparr>"

definition start :: "RiskEngine \<Rightarrow> LogState \<Rightarrow> RiskEngine \<times> LogState" where
  "start e l = (e\<lparr> re_running := True \<rparr>, log_re l (''Risk Engine started'', NoArg))"

definition stop :: "RiskEngine \<Rightarrow> LogState \<Rightarrow> RiskEngine \<times> LogState" where
  "stop e l = (e\<lparr> re_running := False \<rparr>, log_re l (''Risk Engine stopped'', NoArg))"

text \<open>
  \<open>hashSymbol\<close>: \<open>hash = hash * 31 + c\<close> over the characters, in \<open>size_t\<close>. A \<open>char\<close> is
  signed on the Linux x86-64 target the engine is built for, so it is sign-extended.
\<close>

definition hashSymbol :: "string \<Rightarrow> 64 word" where
  "hashSymbol name = fold (\<lambda>c hash. hash * 31 + scast (of_char c :: 8 word)) name 0"

text \<open>
  \<open>checkOrder\<close> takes the engine, the log, the order and the latency it measures between
  its two clock readings, and returns its boolean with the engine and the log after the
  call.
\<close>

definition checkOrder ::
  "RiskEngine \<Rightarrow> LogState \<Rightarrow> Order \<Rightarrow> 64 word \<Rightarrow> bool \<times> RiskEngine \<times> LogState" where
  "checkOrder e l order latency =
     (if \<not> re_running e then (False, e, l)
      else
        let passed = True;
            order_value = price order * quantity order;
            (passed, l) =
              (if order_value > max_order_value (re_config e)
               then (False, log_re l (''Order value exceeds limit: '', RealArg order_value))
               else (passed, l));
            (passed, l) =
              (if passed then
                 let pos = re_positions e (unat (hashSymbol (symbol order) mod MAX_SYMBOLS));
                     new_position_value =
                       pos_value pos + (if side order = BUY then order_value else - order_value)
                 in if \<bar>new_position_value\<bar> > max_position_value (re_config e)
                    then (False, log_re l (''Position value would exceed limit: '',
                                           RealArg new_position_value))
                    else (passed, l)
               else (passed, l));
            (passed, l) =
              (if passed then
                 if re_daily_pnl e < - daily_loss_limit (re_config e)
                 then (False, log_re l (''Daily loss limit exceeded: '', RealArg (re_daily_pnl e)))
                 else (passed, l)
               else (passed, l));
            (passed, l) =
              (if passed then
                 if re_open_orders e \<ge> max_open_orders (re_config e)
                 then (False, log_re l (''Open orders limit exceeded: '', IntArg (re_open_orders e)))
                 else (passed, l)
               else (passed, l))
        in (passed,
            e\<lparr> re_total_checks := re_total_checks e + 1,
               re_total_latency_ns := re_total_latency_ns e + latency \<rparr>,
            l))"

definition getTotalChecks :: "RiskEngine \<Rightarrow> 64 word" where
  "getTotalChecks e = re_total_checks e"

text \<open>
  The four gates as the specification words them: order value, prospective position
  value of the order's symbol slot, daily PnL, open orders.
\<close>

definition gate_order_value :: "RiskEngine \<Rightarrow> Order \<Rightarrow> bool" where
  "gate_order_value e order \<longleftrightarrow> price order * quantity order \<le> max_order_value (re_config e)"

definition gate_position_value :: "RiskEngine \<Rightarrow> Order \<Rightarrow> bool" where
  "gate_position_value e order \<longleftrightarrow>
     \<bar>pos_value (re_positions e (unat (hashSymbol (symbol order) mod MAX_SYMBOLS))) +
      (if side order = BUY then price order * quantity order
       else - (price order * quantity order))\<bar>
     \<le> max_position_value (re_config e)"

definition gate_daily_pnl :: "RiskEngine \<Rightarrow> bool" where
  "gate_daily_pnl e \<longleftrightarrow> re_daily_pnl e \<ge> - daily_loss_limit (re_config e)"

definition gate_open_orders :: "RiskEngine \<Rightarrow> bool" where
  "gate_open_orders e \<longleftrightarrow> re_open_orders e < max_open_orders (re_config e)"

text \<open>
  The engine and the second order of \<open>test_risk_engine_basic\<close>
  (\<open>tests/test_risk_engine.cpp\<close>): an order worth 20000 against a limit of 10000. The test
  sets four fields of the order; the others are taken value-initialised.
\<close>

definition test_config :: RiskConfig where
  "test_config =
     RiskConfig_new\<lparr> max_order_value := 10000, max_position_value := 50000,
                     daily_loss_limit := 5000, max_open_orders := 10 \<rparr>"

definition test_engine :: RiskEngine where
  "test_engine = fst (start (RiskEngine_new test_config) LogState_new)"

definition test_log :: LogState where
  "test_log = snd (start (RiskEngine_new test_config) LogState_new)"

definition test_order2 :: Order where
  "test_order2 = default_order\<lparr> symbol := ''BTCUSDT'', side := BUY, price := 40000, quantity := 1 / 2 \<rparr>"

section \<open>Order manager (\<open>engine/order_manager.cpp\<close>)\<close>

record OrderManagerConfig =
  ring_buffer_size :: "64 word"
  max_orders_per_second :: "64 word"
  max_active_orders :: "64 word"
  cpu_cores :: "int list"

record Stats =
  orders_processed :: "64 word"
  orders_rejected :: "64 word"
  total_latency_us :: "64 word"
  min_latency_us :: "64 word"
  max_latency_us :: "64 word"

definition Stats_new :: Stats where
  "Stats_new =
     \<lparr> orders_processed = 0, orders_rejected = 0, total_latency_us = 0,
       min_latency_us = - 1, max_latency_us = 0 \<rparr>"

text \<open>
  The members of \<open>class OrderManager\<close> that the constructor and \<open>SubmitOrder\<close> use,
  prefix \<open>om\<close>. \<open>order_queues_\<close> holds one ring per venue, all seven built by the
  constructor. \<open>last_rate_check_\<close> is a reading of the steady clock, in nanoseconds.
\<close>

record OrderManager =
  om_config :: OrderManagerConfig
  om_stats :: Stats
  om_order_queues :: "ExchangeType \<Rightarrow> Order RingBuffer"
  om_orders_this_second :: "32 word"
  om_last_rate_check :: int

definition OrderManager_new :: "OrderManagerConfig \<Rightarrow> int \<Rightarrow> OrderManager" where
  "OrderManager_new config now =
     \<lparr> om_config = config,
       om_stats = Stats_new,
       om_order_queues = (\<lambda>exchange. RingBuffer_new default_order (ring_buffer_size config)),
       om_orders_this_second = 0,
       om_last_rate_check = now \<rparr>"

text \<open>
  \<open>SubmitOrder\<close> at clock reading \<open>now\<close>. \<open>fetch_add\<close> returns the counter before the
  increment, which is compared as a \<open>size_t\<close>.
\<close>

definition SubmitOrder :: "OrderManager \<Rightarrow> Order \<Rightarrow> int \<Rightarrow> (bool \<times> OrderManager) option" where
  "SubmitOrder m order now =
     (let m = (if now - om_last_rate_check m \<ge> 1000000000
               then m\<lparr> om_orders_this_second := 0, om_last_rate_check := now \<rparr>
               else m);
          previous = om_orders_this_second m;
          m = m\<lparr> om_orders_this_second := previous + 1 \<rparr>
      in if (ucast previous :: 64 word) \<ge> max_orders_per_second (om_config m)
         then Some (False, m\<lparr> om_stats := (om_stats m)
                      \<lparr> orders_rejected := orders_rejected (om_stats m) + 1 \<rparr> \<rparr>)
         else
           (case push (om_order_queues m (exchange order)) order of
              None \<Rightarrow> None
            | Some (pushed, queue) \<Rightarrow>
                if \<not> pushed
                then Some (False, m\<lparr> om_stats := (om_stats m)
                             \<lparr> orders_rejected := orders_rejected (om_stats m) + 1 \<rparr> \<rparr>)
                else Some (True, m\<lparr> om_order_queues :=
                             (om_order_queues m)(exchange order := queue) \<rparr>)))"

text \<open>A run of submissions, each with the clock reading of its call.\<close>

fun submit_seq :: "OrderManager \<Rightarrow> (Order \<times> int) list \<Rightarrow> (bool list \<times> OrderManager) option" where
  "submit_seq m [] = Some ([], m)"
| "submit_seq m ((order, now) # rest) =
     (case SubmitOrder m order now of
        None \<Rightarrow> None
      | Some (b, m') \<Rightarrow>
          (case submit_seq m' rest of
             None \<Rightarrow> None
           | Some (bs, m'') \<Rightarrow> Some (b # bs, m'')))"

text \<open>
  Every venue ring is in a state the ring invariant allows and has room for \<open>k\<close> more
  orders.
\<close>

definition rings_room :: "OrderManager \<Rightarrow> nat \<Rightarrow> bool" where
  "rings_room m k \<longleftrightarrow>
     (\<forall>e. wf_ring (om_order_queues m e) \<and>
          unat (size_rb (om_order_queues m e)) + k < unat (capacity (om_order_queues m e)))"

text \<open>
  The defaults of \<open>OrderManager::Config\<close>, and the rate-limit scenario: three orders per
  second, a manager constructed at clock reading 0.
\<close>

definition OrderManagerConfig_new :: OrderManagerConfig where
  "OrderManagerConfig_new =
     \<lparr> ring_buffer_size = 1048576, max_orders_per_second = 100000,
       max_active_orders = 1000000, cpu_cores = [2, 3] \<rparr>"

definition rate_limit_manager :: OrderManager where
  "rate_limit_manager =
     OrderManager_new (OrderManagerConfig_new\<lparr> max_orders_per_second := 3 \<rparr>) 0"

section \<open>Arbitrage detector (\<open>src/strategies/arbitrage_detector.cpp\<close>)\<close>

text \<open>
  \<open>struct PriceFeed\<close>, selectors prefixed \<open>pf\<close>. The \<open>char[16]\<close> names are strings.
\<close>

record PriceFeed =
  pf_exchange :: string
  pf_symbol :: string
  pf_bid_price :: real
  pf_bid_quantity :: real
  pf_ask_price :: real
  pf_ask_quantity :: real
  pf_timestamp_ns :: "64 word"

text \<open>
  \<open>struct ArbitrageOpportunity\<close>; \<open>id\<close> and \<open>symbol\<close> are \<open>opp_id\<close> and \<open>opp_symbol\<close>. The
  quantity, the rate and the profit are computed through quotients by an ask price.
\<close>

record ArbitrageOpportunity =
  opp_id :: string
  opp_symbol :: string
  buy_exchange :: string
  sell_exchange :: string
  buy_price :: real
  sell_price :: real
  max_quantity :: dbl
  profit_rate :: dbl
  net_profit :: dbl
  detected_at_ns :: "64 word"
  valid_until_ns :: "64 word"

definition ArbitrageOpportunity_new :: ArbitrageOpportunity where
  "ArbitrageOpportunity_new =
     \<lparr> opp_id = [], opp_symbol = [], buy_exchange = [], sell_exchange = [],
       buy_price = 0, sell_price = 0, max_quantity = Fin 0, profit_rate = Fin 0,
       net_profit = Fin 0,
       detected_at_ns = 0, valid_until_ns = 0 \<rparr>"

record ArbitrageConfig =
  min_profit_rate :: real
  min_profit_amount :: real
  max_position_size :: real
  opportunity_ttl_ns :: "64 word"
  taker_fees :: "string \<rightharpoonup> real"
  maker_fees :: "string \<rightharpoonup> real"

definition ArbitrageConfig_new :: ArbitrageConfig where
  "ArbitrageConfig_new =
     \<lparr> min_profit_rate = 1 / 1000, min_profit_amount = 10, max_position_size = 10000,
       opportunity_ttl_ns = 500000000, taker_fees = Map.empty, maker_fees = Map.empty \<rparr>"

definition OPPORTUNITY_BUFFER_SIZE :: "64 word" where
  "OPPORTUNITY_BUFFER_SIZE = 1024"

text \<open>
  The members of \<open>class ArbitrageDetector\<close> that \<open>checkArbitrageOpportunity\<close> uses, prefix
  \<open>ad\<close>.
\<close>

record ArbitrageDetector =
  ad_config :: ArbitrageConfig
  ad_opportunity_buffer :: "ArbitrageOpportunity RingBuffer"
  ad_detected_count :: "64 word"

definition ArbitrageDetector_new :: "ArbitrageConfig \<Rightarrow> ArbitrageDetector" where
  "ArbitrageDetector_new config =
     \<lparr> ad_config = config,
       ad_opportunity_buffer = RingBuffer_new ArbitrageOpportunity_new OPPORTUNITY_BUFFER_SIZE,
       ad_detected_count = 0 \<rparr>"

definition calculateFee :: "ArbitrageConfig \<Rightarrow> string \<Rightarrow> real \<Rightarrow> bool \<Rightarrow> real" where
  "calculateFee config exchange_name price_arg is_taker =
     (case (if is_taker then taker_fees config exchange_name
            else maker_fees config exchange_name) of
        Some rate \<Rightarrow> price_arg * rate
      | None \<Rightarrow> price_arg * (1 / 1000))"

text \<open>The decimal digits that \<open>%llu\<close> prints.\<close>

fun decimal :: "nat \<Rightarrow> string" where
  "decimal n =
     (if n < 10 then [char_of (48 + n)]
      else decimal (n div 10) @ [char_of (48 + n mod 10)])"

declare decimal.simps [simp del]

text \<open>
  \<open>checkArbitrageOpportunity\<close> at clock reading \<open>timestamp\<close>. The two rates and the
  capped quantity are quotients by \<open>buy.ask_price\<close>, which nothing guards against
  zero. \<open>snprintf\<close> keeps at most 63 characters of the id and \<open>strncpy\<close> at most 15 of
  each name.
\<close>

definition checkArbitrageOpportunity ::
  "ArbitrageDetector \<Rightarrow> PriceFeed \<Rightarrow> PriceFeed \<Rightarrow> string \<Rightarrow> 64 word \<Rightarrow> ArbitrageDetector option" where
  "checkArbitrageOpportunity d buy sell symbol_arg timestamp =
     (let price_diff = pf_bid_price sell - pf_ask_price buy
      in if price_diff \<le> 0 then Some d
         else
           let profit_rate_v = ddiv (Fin price_diff) (Fin (pf_ask_price buy))
           in if dlt profit_rate_v (Fin (min_profit_rate (ad_config d))) then Some d
              else
                let buy_fee = calculateFee (ad_config d) (pf_exchange buy) (pf_ask_price buy) True;
                    sell_fee = calculateFee (ad_config d) (pf_exchange sell) (pf_bid_price sell) True;
                    total_fee_rate = ddiv (Fin (buy_fee + sell_fee)) (Fin (pf_ask_price buy));
                    net_profit_rate = dsub profit_rate_v total_fee_rate
                in if dlt net_profit_rate (Fin (min_profit_rate (ad_config d))) then Some d
                   else
                     let max_quantity_v = min (pf_ask_quantity buy) (pf_bid_quantity sell);
                         max_value = max_quantity_v * pf_ask_price buy;
                         (max_quantity_v, max_value) =
                           (if max_value > max_position_size (ad_config d)
                            then (ddiv (Fin (max_position_size (ad_config d)))
                                       (Fin (pf_ask_price buy)),
                                  max_position_size (ad_config d))
                            else (Fin max_quantity_v, max_value));
                         net_profit_v = dsub (dmul max_quantity_v (Fin price_diff))
                                             (dmul max_quantity_v (Fin (buy_fee + sell_fee)))
                     in if dlt net_profit_v (Fin (min_profit_amount (ad_config d))) then Some d
                        else
                          let opportunity = ArbitrageOpportunity_new
                                \<lparr> opp_id := take 63 (symbol_arg @ ''_'' @ pf_exchange buy @ ''_'' @
                                                     pf_exchange sell @ ''_'' @
                                                     decimal (unat timestamp)),
                                  opp_symbol := take 15 symbol_arg,
                                  buy_exchange := take 15 (pf_exchange buy),
                                  sell_exchange := take 15 (pf_exchange sell),
                                  buy_price := pf_ask_price buy,
                                  sell_price := pf_bid_price sell,
                                  max_quantity := max_quantity_v,
                                  profit_rate := net_profit_rate,
                                  net_profit := net_profit_v,
                                  detected_at_ns := timestamp,
                                  valid_until_ns := timestamp + opportunity_ttl_ns (ad_config d) \<rparr>
                          in (case push (ad_opportunity_buffer d) opportunity of
                                None \<Rightarrow> None
                              | Some (pushed, buffer) \<Rightarrow>
                                  if pushed
                                  then Some (d\<lparr> ad_opportunity_buffer := buffer,
                                                ad_detected_count := ad_detected_count d + 1 \<rparr>)
                                  else Some d))"

text \<open>
  What the specification asks of an emitted opportunity: both thresholds met.
\<close>

definition meets_thresholds :: "ArbitrageConfig \<Rightarrow> ArbitrageOpportunity \<Rightarrow> bool" where
  "meets_thresholds config opp \<longleftrightarrow>
     dge (net_profit opp) (Fin (min_profit_amount config)) \<and>
     dge (profit_rate opp) (Fin (min_profit_rate config))"

text \<open>
  The arbitrage-emission scenario of the specification: venue A asks 100, venue B bids
  100.5, one unit each, taker fees of 0.1 % on both.
\<close>

definition scenario_config :: ArbitrageConfig where
  "scenario_config =
     ArbitrageConfig_new\<lparr> min_profit_rate := 1 / 1000, min_profit_amount := 1 / 10,
                           max_position_size := 1000,
                           taker_fees := [''A'' \<mapsto> 1 / 1000, ''B'' \<mapsto> 1 / 1000] \<rparr>"

definition feed_A :: PriceFeed where
  "feed_A =
     \<lparr> pf_exchange = ''A'', pf_symbol = ''X'', pf_bid_price = 99, pf_bid_quantity = 1,
       pf_ask_price = 100, pf_ask_quantity = 1, pf_timestamp_ns = 0 \<rparr>"

definition feed_B :: PriceFeed where
  "feed_B =
     \<lparr> pf_exchange = ''B'', pf_symbol = ''X'', pf_bid_price = 201 / 2, pf_bid_quantity = 1,
       pf_ask_price = 101, pf_ask_quantity = 1, pf_timestamp_ns = 0 \<rparr>"

text \<open>Venue A reporting an ask price of 0 for its one unit; its bid is as before.\<close>

definition feed_A_zero_ask :: PriceFeed where
  "feed_A_zero_ask = feed_A\<lparr> pf_ask_price := 0 \<rparr>"

section \<open>Market maker (\<open>src/strategies/market_maker.cpp\<close>)\<close>

text \<open>
  \<open>struct MMQuote\<close>, selectors prefixed \<open>q\<close>. The price is computed through a quotient
  by \<open>max_inventory\<close>.
\<close>

record MMQuote =
  q_symbol :: string
  q_exchange :: string
  q_side :: Side
  q_price :: dbl
  q_quantity :: real
  q_level :: int
  q_timestamp_ns :: "64 word"

definition MMQuote_new :: MMQuote where
  "MMQuote_new =
     \<lparr> q_symbol = [], q_exchange = [], q_side = BUY, q_price = Fin 0, q_quantity = 0,
       q_level = 0, q_timestamp_ns = 0 \<rparr>"

record MarketSnapshot =
  bid_price :: real
  ask_price :: real
  mid_price :: real
  last_price :: real
  bid_size :: real
  ask_size :: real
  volatility :: real
  ms_timestamp_ns :: "64 word"

definition MarketSnapshot_new :: MarketSnapshot where
  "MarketSnapshot_new =
     \<lparr> bid_price = 0, ask_price = 0, mid_price = 0, last_price = 0, bid_size = 0,
       ask_size = 0, volatility = 0, ms_timestamp_ns = 0 \<rparr>"

record InventorySnapshot =
  position :: real
  avg_price :: real
  unrealized_pnl :: real
  realized_pnl :: real
  position_value :: real
  inv_timestamp_ns :: "64 word"

definition InventorySnapshot_new :: InventorySnapshot where
  "InventorySnapshot_new =
     \<lparr> position = 0, avg_price = 0, unrealized_pnl = 0, realized_pnl = 0,
       position_value = 0, inv_timestamp_ns = 0 \<rparr>"

text \<open>
  \<open>struct MarketMakerConfig\<close>; its \<open>max_position_value\<close> is \<open>mm_max_position_value\<close>.
\<close>

record MarketMakerConfig =
  base_spread_bps :: real
  min_spread_bps :: real
  max_spread_bps :: real
  quote_size :: real
  quote_levels :: int
  level_spacing_bps :: real
  max_inventory :: real
  inventory_skew :: real
  volatility_factor :: real
  mm_max_position_value :: real
  stop_loss_percent :: real
  max_daily_loss :: real

definition MarketMakerConfig_new :: MarketMakerConfig where
  "MarketMakerConfig_new =
     \<lparr> base_spread_bps = 10, min_spread_bps = 5, max_spread_bps = 50, quote_size = 1,
       quote_levels = 3, level_spacing_bps = 2, max_inventory = 100, inventory_skew = 1 / 2,
       volatility_factor = 1, mm_max_position_value = 100000, stop_loss_percent = 2 / 100,
       max_daily_loss = 1000 \<rparr>"

definition MAX_QUOTES :: "64 word" where
  "MAX_QUOTES = 20"

definition QUOTE_BUFFER_SIZE :: "64 word" where
  "QUOTE_BUFFER_SIZE = 1024"

text \<open>
  The members of \<open>class MarketMakerEngine\<close> that quote generation uses; \<open>config_\<close> and
  \<open>running_\<close> are \<open>mm_config\<close> and \<open>mm_running\<close>.
\<close>

record MarketMakerEngine =
  mm_config :: MarketMakerConfig
  market_state :: MarketSnapshot
  inventory_state :: InventorySnapshot
  quote_buffer :: "MMQuote RingBuffer"
  current_quotes :: "nat \<Rightarrow> MMQuote"
  active_quotes :: "64 word"
  quotes_generated :: "64 word"
  mm_running :: bool

definition MarketMakerEngine_new :: "MarketMakerConfig \<Rightarrow> MarketMakerEngine" where
  "MarketMakerEngine_new config =
     \<lparr> mm_config = config,
       market_state = MarketSnapshot_new,
       inventory_state = InventorySnapshot_new,
       quote_buffer = RingBuffer_new MMQuote_new QUOTE_BUFFER_SIZE,
       current_quotes = (\<lambda>_. MMQuote_new),
       active_quotes = 0,
       quotes_generated = 0,
       mm_running = False \<rparr>"

text \<open>
  \<open>getInventorySkew\<close> and \<open>calculateSpread\<close> divide the position by \<open>max_inventory\<close>,
  which nothing guards against zero.
\<close>

definition getInventorySkew :: "MarketMakerConfig \<Rightarrow> real \<Rightarrow> dbl" where
  "getInventorySkew config position_arg =
     (let inventory_ratio = ddiv (Fin position_arg) (Fin (max_inventory config))
      in dadd (Fin 1) (dmul (Fin (inventory_skew config)) (dabs inventory_ratio)))"

definition calculateSpread ::
  "MarketMakerConfig \<Rightarrow> MarketSnapshot \<Rightarrow> InventorySnapshot \<Rightarrow> dbl" where
  "calculateSpread config market inventory =
     (let base_spread = base_spread_bps config / 10000;
          vol_factor = 1 + volatility market * volatility_factor config;
          inventory_ratio = ddiv (Fin (position inventory)) (Fin (max_inventory config));
          skew_factor = getInventorySkew config (position inventory);
          spread = dmul (dmul (Fin base_spread) (Fin vol_factor)) skew_factor;
          min_spread = min_spread_bps config / 10000;
          max_spread = max_spread_bps config / 10000
      in std_max (Fin min_spread) (std_min (Fin max_spread) spread))"

text \<open>
  The two halves of the price computation in \<open>generateQuoteLevel\<close>.
  \<open>level_quote_price\<close> is the price the function first stores in the quote, from the
  side and the level; \<open>apply_inventory_skew\<close> is the multiplication it then applies to
  the stored price, by the sign of the inventory ratio (neither branch is taken when
  the ratio is zero or NaN).
\<close>

definition level_quote_price :: "MarketMakerConfig \<Rightarrow> Side \<Rightarrow> real \<Rightarrow> dbl \<Rightarrow> int \<Rightarrow> dbl" where
  "level_quote_price config side_arg mid spread level =
     (let level_spread =
            dmul spread (Fin (1 + real_of_int level * level_spacing_bps config / 10000))
      in if side_arg = BUY then dmul (Fin mid) (dsub (Fin 1) level_spread)
         else dmul (Fin mid) (dadd (Fin 1) level_spread))"

definition apply_inventory_skew ::
  "MarketMakerConfig \<Rightarrow> InventorySnapshot \<Rightarrow> Side \<Rightarrow> dbl \<Rightarrow> dbl" where
  "apply_inventory_skew config inventory side_arg price_arg =
     (let inventory_ratio = ddiv (Fin (position inventory)) (Fin (max_inventory config))
      in if dgt inventory_ratio (Fin 0) then
           (if side_arg = SELL
            then dmul price_arg
                   (dsub (Fin 1) (dmul (dmul (dabs inventory_ratio) (Fin (inventory_skew config)))
                                       (Fin (1 / 2))))
            else dmul price_arg
                   (dadd (Fin 1) (dmul (dmul (dabs inventory_ratio) (Fin (inventory_skew config)))
                                       (Fin (1 / 2)))))
         else if dlt inventory_ratio (Fin 0) then
           (if side_arg = BUY
            then dmul price_arg
                   (dadd (Fin 1) (dmul (dmul (dabs inventory_ratio) (Fin (inventory_skew config)))
                                       (Fin (1 / 2))))
            else dmul price_arg
                   (dsub (Fin 1) (dmul (dmul (dabs inventory_ratio) (Fin (inventory_skew config)))
                                       (Fin (1 / 2)))))
         else price_arg)"

text \<open>
  \<open>generateQuoteLevel\<close> at clock reading \<open>now\<close>. It claims the next slot of
  \<open>current_quotes_\<close>, gives the claim back when all \<open>MAX_QUOTES\<close> slots are taken, and
  otherwise fills every field of the slot.
\<close>

definition generateQuoteLevel ::
  "MarketMakerEngine \<Rightarrow> string \<Rightarrow> Side \<Rightarrow> real \<Rightarrow> dbl \<Rightarrow> int \<Rightarrow> 64 word \<Rightarrow>
   MarketMakerEngine" where
  "generateQuoteLevel m symbol_arg side_arg mid spread level now =
     (let idx = active_quotes m;
          m = m\<lparr> active_quotes := active_quotes m + 1 \<rparr>
      in if idx \<ge> MAX_QUOTES then m\<lparr> active_quotes := active_quotes m - 1 \<rparr>
         else
           let price0 = level_quote_price (mm_config m) side_arg mid spread level;
               inventory = inventory_state m;
               price1 = apply_inventory_skew (mm_config m) inventory side_arg price0;
               quote = \<lparr> q_symbol = take 15 symbol_arg, q_exchange = take 15 ''binance'',
                         q_side = side_arg, q_price = price1,
                         q_quantity = quote_size (mm_config m), q_level = level,
                         q_timestamp_ns = now \<rparr>
           in m\<lparr> current_quotes := (current_quotes m)(unat idx := quote) \<rparr>)"

text \<open>
  The loop over the levels of \<open>generateQuotes\<close>: a bid and an ask per level.
  \<open>clock level side\<close> is the clock reading of the call for that level and side;
  \<open>n\<close> is \<open>config_.quote_levels\<close>, which nothing in the loop writes.
\<close>

function levels_loop ::
  "int \<Rightarrow> MarketMakerEngine \<Rightarrow> real \<Rightarrow> dbl \<Rightarrow> int \<Rightarrow> (int \<Rightarrow> Side \<Rightarrow> 64 word) \<Rightarrow>
   MarketMakerEngine" where
  "levels_loop n m mid spread level clock =
     (if level < n then
        let m1 = generateQuoteLevel m ''BTCUSDT'' BUY mid spread level (clock level BUY);
            m2 = generateQuoteLevel m1 ''BTCUSDT'' SELL mid spread level (clock level SELL)
        in levels_loop n m2 mid spread (level + 1) clock
      else m)"
  by pat_completeness auto
termination
  by (relation "measure (\<lambda>(n, m, mid, spread, level, clock). nat (n - level))") auto

declare levels_loop.simps [simp del]

text \<open>
  The loop that hands the batch to the outbound ring: slots \<open>i\<close> up to \<open>quote_count\<close>.
\<close>

function push_quotes_loop :: "MarketMakerEngine \<Rightarrow> nat \<Rightarrow> nat \<Rightarrow> MarketMakerEngine option" where
  "push_quotes_loop m i quote_count =
     (if i < quote_count then
        (case push (quote_buffer m) (current_quotes m i) of
           None \<Rightarrow> None
         | Some (pushed, buffer) \<Rightarrow>
             push_quotes_loop
               (m\<lparr> quote_buffer := buffer, quotes_generated := quotes_generated m + 1 \<rparr>)
               (i + 1) quote_count)
      else Some m)"
  by pat_completeness auto
termination
  by (relation "measure (\<lambda>(m, i, quote_count). quote_count - i)") auto

declare push_quotes_loop.simps [simp del]

definition generateQuotes ::
  "MarketMakerEngine \<Rightarrow> (int \<Rightarrow> Side \<Rightarrow> 64 word) \<Rightarrow> MarketMakerEngine option" where
  "generateQuotes m clock =
     (if \<not> mm_running m then Some m
      else
        let market = market_state m;
            inventory = inventory_state m
        in if mid_price market \<le> 0 \<or> bid_price market \<le> 0 \<or> ask_price market \<le> 0
           then Some m
           else
             let spread = calculateSpread (mm_config m) market inventory;
                 m = m\<lparr> active_quotes := 0 \<rparr>;
                 m = levels_loop (quote_levels (mm_config m)) m (mid_price market) spread 0 clock;
                 quote_count = active_quotes m
             in push_quotes_loop m 0 (unat quote_count))"

text \<open>
  A running engine with the default configuration, a market around 100, no inventory,
  and an outbound ring that the consumer has not drained: 1023 quotes queued in its
  1024 slots.
\<close>

definition full_ring_engine :: MarketMakerEngine where
  "full_ring_engine =
     (MarketMakerEngine_new MarketMakerConfig_new)
       \<lparr> market_state := MarketSnapshot_new
            \<lparr> bid_price := 99, ask_price := 101, mid_price := 100, last_price := 100 \<rparr>,
         quote_buffer := (RingBuffer_new MMQuote_new QUOTE_BUFFER_SIZE)\<lparr> head := 1023 \<rparr>,
         mm_running := True \<rparr>"

section \<open>Properties of the ring buffer\<close>

subsection \<open>Indices as natural numbers\<close>

lemma unat_and_mask64: "unat ((w::64 word) AND mask k) = unat w mod 2 ^ k"
proof -
  have "unat (w AND mask k) = unat (take_bit k w)"
    by (simp only: take_bit_eq_mask)
  also have "\<dots> = take_bit k (unat w)"
    by (rule unsigned_take_bit_eq)
  also have "\<dots> = unat w mod 2 ^ k"
    by (rule take_bit_eq_mod)
  finally show ?thesis .
qed

lemma pow_less_64: "k < 64 \<Longrightarrow> (2::nat) ^ k < 2 ^ 64"
  by (rule power_strict_increasing) simp_all

lemma pow_le_63: "k < 64 \<Longrightarrow> (2::nat) ^ k \<le> 2 ^ 63"
  by (rule power_increasing) simp_all

lemma unat_next:
  fixes w :: "64 word"
  assumes "k < 64" "unat w < 2 ^ k"
  shows "unat ((w + 1) AND mask k) = (if unat w + 1 = 2 ^ k then 0 else unat w + 1)"
proof -
  have "(2::nat) ^ k < 2 ^ 64" using assms(1) by (rule pow_less_64)
  with assms(2) have "unat w + 1 < 2 ^ 64" by simp
  then have "unat (w + 1) = unat w + 1"
    by (simp add: unat_word_ariths)
  with assms(2) show ?thesis by (simp add: unat_and_mask64)
qed

lemma unat_size:
  fixes h t :: "64 word"
  assumes "k < 64" "unat h < 2 ^ k" "unat t < 2 ^ k"
  shows "unat ((h - t) AND mask k) =
         (if unat t \<le> unat h then unat h - unat t else unat h + 2 ^ k - unat t)"
proof (cases "unat t \<le> unat h")
  case True
  then have "unat (h - t) = unat h - unat t" by (simp add: unat_sub_if')
  with True assms show ?thesis by (simp add: unat_and_mask64)
next
  case False
  then have u: "unat (h - t) = unat h + 2 ^ 64 - unat t" by (simp add: unat_sub_if')
  have "(2::nat) ^ 64 = 2 ^ k * 2 ^ (64 - k)"
    using assms(1) by (simp flip: power_add)
  moreover have "(1::nat) \<le> 2 ^ (64 - k)" by simp
  ultimately obtain q :: nat where q: "(2::nat) ^ 64 = 2 ^ k + 2 ^ k * q"
    by (metis add.commute le_add_diff_inverse mult.right_neutral distrib_left)
  have "unat h + 2 ^ 64 - unat t = (unat h + 2 ^ k - unat t) + 2 ^ k * q"
    using False assms q by simp
  then have "unat (h - t) mod 2 ^ k = (unat h + 2 ^ k - unat t) mod 2 ^ k"
    by (simp add: u)
  with False assms show ?thesis by (simp add: unat_and_mask64)
qed

lemma unat_offset:
  fixes t :: "64 word"
  assumes "k < 64" "unat t < 2 ^ k" "i < 2 ^ k"
  shows "unat ((t + of_nat i) AND mask k) =
         (if unat t + i < 2 ^ k then unat t + i else unat t + i - 2 ^ k)"
proof -
  have "(2::nat) ^ k \<le> 2 ^ 63" using assms(1) by (rule pow_le_63)
  with assms have "unat t + i < 2 ^ 64" by simp
  moreover from this have "i < 2 ^ 64" by simp
  ultimately have "unat (t + of_nat i) = unat t + i"
    by (simp add: unat_word_ariths unat_of_nat)
  with assms show ?thesis
    by (simp add: unat_and_mask64 mod_if)
qed

lemma unat_pow64:
  assumes "k < 64"
  shows "unat ((2::64 word) ^ k) = 2 ^ k"
proof -
  have "unat (of_nat (2 ^ k) :: 64 word) = 2 ^ k mod 2 ^ 64"
    by (simp only: unat_of_nat len_bit0 len_num1 mult_1_right) simp
  moreover have "(2::nat) ^ k < 2 ^ 64" using assms by (rule pow_less_64)
  ultimately show ?thesis by simp
qed

lemma unat_pow64_minus1:
  assumes "k < 64"
  shows "unat ((2::64 word) ^ k - 1) = 2 ^ k - 1"
proof -
  have "(2::64 word) ^ k \<noteq> 0" using assms by simp
  then show ?thesis by (simp add: unat_minus_one unat_pow64 [OF assms])
qed

subsection \<open>Rounding the capacity\<close>

lemma smear_step:
  fixes x m :: "64 word"
  assumes "\<And>i. bit x i \<longleftrightarrow> (\<exists>j. i \<le> j \<and> j < i + d \<and> bit m j)"
  shows "bit (x OR drop_bit d x) i \<longleftrightarrow> (\<exists>j. i \<le> j \<and> j < i + 2 * d \<and> bit m j)"
proof
  assume "bit (x OR drop_bit d x) i"
  then have "bit x i \<or> bit x (d + i)"
    by (simp add: bit_or_iff bit_drop_bit_eq)
  then show "\<exists>j. i \<le> j \<and> j < i + 2 * d \<and> bit m j"
  proof
    assume "bit x i"
    then obtain j where "i \<le> j" "j < i + d" "bit m j" using assms by blast
    then show ?thesis by (intro exI [of _ j]) simp
  next
    assume "bit x (d + i)"
    then obtain j where "d + i \<le> j" "j < d + i + d" "bit m j" using assms by blast
    then show ?thesis by (intro exI [of _ j]) simp
  qed
next
  assume "\<exists>j. i \<le> j \<and> j < i + 2 * d \<and> bit m j"
  then obtain j where j: "i \<le> j" "j < i + 2 * d" "bit m j" by blast
  show "bit (x OR drop_bit d x) i"
  proof (cases "j < i + d")
    case True
    with j assms have "bit x i" by blast
    then show ?thesis by (simp add: bit_or_iff)
  next
    case False
    with j have "d + i \<le> j" "j < d + i + d" by simp_all
    with j assms have "bit x (d + i)" by blast
    then show ?thesis by (simp add: bit_or_iff bit_drop_bit_eq)
  qed
qed

lemma smear_bits:
  fixes m :: "64 word"
  defines "x1 \<equiv> m OR drop_bit 1 m"
  defines "x2 \<equiv> x1 OR drop_bit 2 x1"
  defines "x3 \<equiv> x2 OR drop_bit 4 x2"
  defines "x4 \<equiv> x3 OR drop_bit 8 x3"
  defines "x5 \<equiv> x4 OR drop_bit 16 x4"
  defines "x6 \<equiv> x5 OR drop_bit 32 x5"
  shows "bit x6 i \<longleftrightarrow> (\<exists>j. i \<le> j \<and> bit m j)"
proof -
  have b0: "\<And>i. bit m i \<longleftrightarrow> (\<exists>j. i \<le> j \<and> j < i + 1 \<and> bit m j)"
    by (auto simp: less_Suc_eq_le dest: le_antisym)
  have b1: "\<And>i. bit x1 i \<longleftrightarrow> (\<exists>j. i \<le> j \<and> j < i + 2 \<and> bit m j)"
    unfolding x1_def using smear_step [of m 1 m, OF b0] by simp
  have b2: "\<And>i. bit x2 i \<longleftrightarrow> (\<exists>j. i \<le> j \<and> j < i + 4 \<and> bit m j)"
    unfolding x2_def using smear_step [of x1 2 m, OF b1] by simp
  have b3: "\<And>i. bit x3 i \<longleftrightarrow> (\<exists>j. i \<le> j \<and> j < i + 8 \<and> bit m j)"
    unfolding x3_def using smear_step [of x2 4 m, OF b2] by simp
  have b4: "\<And>i. bit x4 i \<longleftrightarrow> (\<exists>j. i \<le> j \<and> j < i + 16 \<and> bit m j)"
    unfolding x4_def using smear_step [of x3 8 m, OF b3] by simp
  have b5: "\<And>i. bit x5 i \<longleftrightarrow> (\<exists>j. i \<le> j \<and> j < i + 32 \<and> bit m j)"
    unfolding x5_def using smear_step [of x4 16 m, OF b4] by simp
  have b6: "bit x6 i \<longleftrightarrow> (\<exists>j. i \<le> j \<and> j < i + 64 \<and> bit m j)"
    unfolding x6_def using smear_step [of x5 32 m, OF b5] by simp
  have "j < i + 64" if "bit m j" for j
    using bit_imp_le_length [OF that] by simp
  with b6 show ?thesis by blast
qed

lemma next_power_of_two_is_power:
  assumes "0 < n" "n \<le> 2 ^ 63"
  shows "\<exists>k<64. next_power_of_two n = 2 ^ k"
proof -
  define m where "m = n - 1"
  define x where "x = (let n = m;
          n = n OR drop_bit 1 n;
          n = n OR drop_bit 2 n;
          n = n OR drop_bit 4 n;
          n = n OR drop_bit 8 n;
          n = n OR drop_bit 16 n;
          n = n OR drop_bit 32 n in n)"
  have npot: "next_power_of_two n = x + 1"
    by (simp add: next_power_of_two_def x_def m_def Let_def)
  have xbit: "bit x i \<longleftrightarrow> (\<exists>j. i \<le> j \<and> bit m j)" for i
    unfolding x_def Let_def by (rule smear_bits)
  have "n \<noteq> 0" using assms(1) by auto
  then have "unat m = unat n - 1" by (simp add: m_def unat_minus_one)
  moreover have "unat n \<le> 2 ^ 63" using assms(2) by (simp add: word_le_nat_alt)
  moreover have "0 < unat n" using \<open>n \<noteq> 0\<close> by (simp add: unat_gt_0)
  ultimately have mlt: "unat m < 2 ^ 63" by simp
  have no63: "\<not> bit m j" if "63 \<le> j" for j
  proof
    assume b: "bit m j"
    then have "j < 64" using bit_imp_le_length [OF b] by simp
    with that have "j = 63" by simp
    with b have "bit (unat m) 63" by (simp add: bit_unsigned_iff)
    with mlt show False by (simp add: bit_iff_odd)
  qed
  show ?thesis
  proof (cases "\<exists>j. bit m j")
    case False
    then have "x = 0" by (intro bit_word_eqI) (simp add: xbit)
    then have "next_power_of_two n = 2 ^ 0" by (simp add: npot)
    then show ?thesis by (intro exI [of _ 0]) simp
  next
    case True
    define S where "S = {j. bit m j}"
    have fin: "finite S"
    proof (rule finite_subset)
      show "S \<subseteq> {..<64}" using bit_imp_le_length [of m] by (auto simp: S_def)
    qed simp
    have ne: "S \<noteq> {}" using True by (simp add: S_def)
    define t where "t = Max S"
    have tin: "bit m t" using Max_in [OF fin ne] by (simp add: t_def S_def)
    have tmax: "j \<le> t" if "bit m j" for j
      using Max_ge [OF fin, of j] that by (simp add: t_def S_def)
    have t63: "t < 63" using no63 [of t] tin by (cases "t < 63") auto
    have "x = mask (Suc t)"
    proof (rule bit_word_eqI)
      fix i assume "i < LENGTH(64)"
      then have i64: "i < 64" by simp
      show "bit x i \<longleftrightarrow> bit (mask (Suc t) :: 64 word) i"
      proof
        assume "bit x i"
        then obtain j where "i \<le> j" "bit m j" using xbit by blast
        then have "i \<le> t" using tmax by force
        with i64 show "bit (mask (Suc t) :: 64 word) i" by (simp add: bit_mask_iff)
      next
        assume "bit (mask (Suc t) :: 64 word) i"
        then have "i \<le> t" by (simp add: bit_mask_iff)
        with tin show "bit x i" using xbit by blast
      qed
    qed
    then have "next_power_of_two n = 2 ^ Suc t"
      by (simp only: npot inc_mask_eq_exp)
    with t63 show ?thesis by (intro exI [of _ "Suc t"]) simp
  qed
qed

subsection \<open>The ring invariant\<close>

lemma wf_ring_iff:
  "wf_ring r \<longleftrightarrow>
     (\<exists>k<64. rb_capacity r = 2 ^ k \<and> rb_mask r = mask k \<and> length (rb_buffer r) = 2 ^ k \<and>
             unat (head r) < 2 ^ k \<and> unat (tail r) < 2 ^ k)"
  by (auto simp: wf_ring_def)

lemma wf_ringE:
  assumes "wf_ring r"
  obtains k where "k < 64" "rb_capacity r = 2 ^ k" "rb_mask r = mask k"
    "length (rb_buffer r) = 2 ^ k" "unat (head r) < 2 ^ k" "unat (tail r) < 2 ^ k"
  using assms unfolding wf_ring_iff by blast

lemma wf_ring_new:
  assumes "0 < n" "n \<le> 2 ^ 63"
  shows "wf_ring (RingBuffer_new d n)"
proof -
  from next_power_of_two_is_power [OF assms]
  obtain k where k: "k < 64" "next_power_of_two n = 2 ^ k" by blast
  then have "unat (next_power_of_two n) = 2 ^ k" by (simp add: unat_pow64)
  with k show ?thesis
    unfolding wf_ring_iff RingBuffer_new_def
    by (intro exI [of _ k]) (simp add: mask_eq_exp_minus_1)
qed

lemma length_contents: "length (contents r) = unat (size_rb r)"
  by (simp add: contents_def)

lemma size_rb_less:
  assumes "wf_ring r"
  shows "unat (size_rb r) < unat (capacity r)"
proof -
  from assms obtain k where k: "k < 64" "rb_capacity r = 2 ^ k" "rb_mask r = mask k"
    "unat (head r) < 2 ^ k" "unat (tail r) < 2 ^ k" by (rule wf_ringE)
  have "unat (size_rb r) =
        (if unat (tail r) \<le> unat (head r) then unat (head r) - unat (tail r)
         else unat (head r) + 2 ^ k - unat (tail r))"
    by (simp add: size_rb_def k(3) unat_size [OF k(1,4,5)])
  moreover have "unat (capacity r) = 2 ^ k"
    by (simp add: capacity_def k(2) unat_pow64 [OF k(1)])
  ultimately show ?thesis using k(4,5) by (auto split: if_splits)
qed

lemma full_iff:
  assumes "wf_ring r"
  shows "(head r + 1) AND rb_mask r = tail r \<longleftrightarrow> size_rb r = capacity r - 1"
proof -
  from assms obtain k where k: "k < 64" "rb_capacity r = 2 ^ k" "rb_mask r = mask k"
    "unat (head r) < 2 ^ k" "unat (tail r) < 2 ^ k" by (rule wf_ringE)
  have c: "unat (capacity r - 1) = 2 ^ k - 1"
    using k(1,2) by (simp add: capacity_def unat_pow64_minus1)
  have "(head r + 1) AND rb_mask r = tail r \<longleftrightarrow>
        unat ((head r + 1) AND mask k) = unat (tail r)"
    by (simp add: k(3) word_unat_eq_iff)
  also have "\<dots> \<longleftrightarrow> unat ((head r - tail r) AND mask k) = 2 ^ k - 1"
    using k(4,5) by (auto simp: unat_next [OF k(1,4)] unat_size [OF k(1,4,5)])
  also have "\<dots> \<longleftrightarrow> size_rb r = capacity r - 1"
    by (simp add: size_rb_def k(3) word_unat_eq_iff c)
  finally show ?thesis .
qed

lemma empty_iff_size:
  assumes "wf_ring r"
  shows "head r = tail r \<longleftrightarrow> size_rb r = 0"
proof -
  from assms obtain k where k: "k < 64" "rb_capacity r = 2 ^ k" "rb_mask r = mask k"
    "unat (head r) < 2 ^ k" "unat (tail r) < 2 ^ k" by (rule wf_ringE)
  have "size_rb r = 0 \<longleftrightarrow> unat ((head r - tail r) AND mask k) = 0"
    by (simp add: size_rb_def k(3) unat_eq_0)
  also have "\<dots> \<longleftrightarrow> unat (head r) = unat (tail r)"
    using k(4,5) by (auto simp: unat_size [OF k(1,4,5)])
  also have "\<dots> \<longleftrightarrow> head r = tail r"
    by (simp add: word_unat_eq_iff)
  finally show ?thesis by simp
qed

lemma push_wf:
  assumes "wf_ring r"
  shows "push r x =
     (if size_rb r = capacity r - 1 then Some (False, r)
      else Some (True, r\<lparr> rb_buffer := (rb_buffer r)[unat (head r) := x],
                           head := (head r + 1) AND rb_mask r \<rparr>))"
proof -
  from assms obtain k where k: "k < 64" "length (rb_buffer r) = 2 ^ k" "unat (head r) < 2 ^ k"
    by (rule wf_ringE)
  then show ?thesis
    by (simp add: push_def Let_def full_iff [OF assms])
qed

lemma pop_wf:
  assumes "wf_ring r"
  shows "pop r =
     (if head r = tail r then Some (None, r)
      else Some (Some (rb_buffer r ! unat (tail r)),
                 r\<lparr> tail := (tail r + 1) AND rb_mask r \<rparr>))"
proof -
  from assms obtain k where k: "k < 64" "length (rb_buffer r) = 2 ^ k" "unat (tail r) < 2 ^ k"
    by (rule wf_ringE)
  then show ?thesis
    by (auto simp: pop_def Let_def)
qed

lemma push_True:
  assumes wf: "wf_ring r" and p: "push r x = Some (True, r')"
  shows "wf_ring r' \<and> contents r' = contents r @ [x] \<and> capacity r' = capacity r"
proof -
  from wf obtain k where k: "k < 64" "rb_capacity r = 2 ^ k" "rb_mask r = mask k"
    "length (rb_buffer r) = 2 ^ k" "unat (head r) < 2 ^ k" "unat (tail r) < 2 ^ k"
    by (rule wf_ringE)
  let ?h = "unat (head r)" and ?t = "unat (tail r)" and ?c = "(2::nat) ^ k"
  let ?s = "unat (size_rb r)"
  from p have nf: "size_rb r \<noteq> capacity r - 1"
    and r': "r' = r\<lparr> rb_buffer := (rb_buffer r)[?h := x], head := (head r + 1) AND rb_mask r \<rparr>"
    by (simp_all add: push_wf [OF wf] split: if_splits)
  have h': "unat (head r') = (if ?h + 1 = ?c then 0 else ?h + 1)"
    by (simp add: r' k(3) unat_next [OF k(1,5)])
  then have h'lt: "unat (head r') < ?c" using k(5) by auto
  have wf': "wf_ring r'"
    unfolding wf_ring_iff using k h'lt by (intro exI [of _ k]) (simp add: r')
  have s: "?s = (if ?t \<le> ?h then ?h - ?t else ?h + ?c - ?t)"
    by (simp add: size_rb_def k(3) unat_size [OF k(1,5,6)])
  have c1: "unat (capacity r - 1) = ?c - 1"
    using k(1,2) by (simp add: capacity_def unat_pow64_minus1)
  from nf have sne: "?s \<noteq> ?c - 1"
    by (simp add: word_unat_eq_iff c1)
  have t': "tail r' = tail r" and m': "rb_mask r' = mask k" by (simp_all add: r' k(3))
  have s': "unat (size_rb r') = ?s + 1"
    using k(5,6) sne s h'
    by (auto simp: size_rb_def m' t' unat_size [OF k(1) h'lt k(6)] split: if_splits)
  have slt: "?s < ?c" using s k(5,6) by (auto split: if_splits)
  have idx: "unat ((tail r + of_nat i) AND mask k) =
             (if ?t + i < ?c then ?t + i else ?t + i - ?c)" if "i < ?c" for i
    using unat_offset [OF k(1,6) that] .
  have old: "rb_buffer r' ! unat ((tail r + of_nat i) AND mask k) =
             rb_buffer r ! unat ((tail r + of_nat i) AND mask k)" if "i < ?s" for i
  proof -
    from that slt have "i < ?c" by simp
    from idx [OF this] that s k(5,6)
    have "unat ((tail r + of_nat i) AND mask k) \<noteq> ?h" by (auto split: if_splits)
    then show ?thesis by (simp add: r')
  qed
  have new: "rb_buffer r' ! unat ((tail r + of_nat ?s) AND mask k) = x"
  proof -
    from idx [OF slt] s k(5,6)
    have "unat ((tail r + of_nat ?s) AND mask k) = ?h" by (auto split: if_splits)
    then show ?thesis using k(4,5) by (simp add: r')
  qed
  have "contents r' = map (\<lambda>i. rb_buffer r' ! unat ((tail r + of_nat i) AND mask k)) [0..<?s + 1]"
    by (simp add: contents_def s' t' m')
  also have "\<dots> = map (\<lambda>i. rb_buffer r ! unat ((tail r + of_nat i) AND mask k)) [0..<?s] @ [x]"
    using old new by simp
  also have "\<dots> = contents r @ [x]"
    by (simp add: contents_def k(3))
  finally have "contents r' = contents r @ [x]" .
  with wf' show ?thesis by (simp add: r' capacity_def)
qed

lemma pop_Some:
  assumes wf: "wf_ring r" and p: "pop r = Some (Some y, r')"
  shows "wf_ring r' \<and> contents r = y # contents r' \<and> capacity r' = capacity r"
proof -
  from wf obtain k where k: "k < 64" "rb_capacity r = 2 ^ k" "rb_mask r = mask k"
    "length (rb_buffer r) = 2 ^ k" "unat (head r) < 2 ^ k" "unat (tail r) < 2 ^ k"
    by (rule wf_ringE)
  let ?h = "unat (head r)" and ?t = "unat (tail r)" and ?c = "(2::nat) ^ k"
  let ?s = "unat (size_rb r)"
  from p have ne: "head r \<noteq> tail r"
    and y: "y = rb_buffer r ! ?t"
    and r': "r' = r\<lparr> tail := (tail r + 1) AND rb_mask r \<rparr>"
    by (simp_all add: pop_wf [OF wf] split: if_splits)
  have t': "unat (tail r') = (if ?t + 1 = ?c then 0 else ?t + 1)"
    by (simp add: r' k(3) unat_next [OF k(1,6)])
  then have t'lt: "unat (tail r') < ?c" using k(6) by auto
  have wf': "wf_ring r'"
    unfolding wf_ring_iff using k t'lt by (intro exI [of _ k]) (simp add: r')
  have s: "?s = (if ?t \<le> ?h then ?h - ?t else ?h + ?c - ?t)"
    by (simp add: size_rb_def k(3) unat_size [OF k(1,5,6)])
  from ne have hne: "?h \<noteq> ?t" by (simp add: word_unat_eq_iff)
  have h': "head r' = head r" and m': "rb_mask r' = mask k" and b': "rb_buffer r' = rb_buffer r"
    by (simp_all add: r' k(3))
  have s': "?s = unat (size_rb r') + 1"
    using k(5,6) hne s t'
    by (auto simp: size_rb_def m' h' unat_size [OF k(1,5) t'lt] split: if_splits)
  have slt: "?s < ?c" using s k(5,6) by (auto split: if_splits)
  have idx: "unat ((tail r + of_nat i) AND mask k) =
             (if ?t + i < ?c then ?t + i else ?t + i - ?c)" if "i < ?c" for i
    using unat_offset [OF k(1,6) that] .
  have idx': "unat ((tail r' + of_nat i) AND mask k) =
             (if unat (tail r') + i < ?c then unat (tail r') + i else unat (tail r') + i - ?c)"
    if "i < ?c" for i
    using unat_offset [OF k(1) t'lt that] .
  have shift: "unat ((tail r' + of_nat i) AND mask k) = unat ((tail r + of_nat (Suc i)) AND mask k)"
    if "Suc i < ?c" for i
  proof -
    from that have "i < ?c" by simp
    from idx' [OF this] idx [OF that] t' k(6) that show ?thesis
      by (auto split: if_splits)
  qed
  have zero: "unat ((tail r + of_nat 0) AND mask k) = ?t"
    using idx [of 0] k(6) by simp
  have "contents r = map (\<lambda>i. rb_buffer r ! unat ((tail r + of_nat i) AND mask k))
                        [0..<Suc (unat (size_rb r'))]"
    by (simp add: contents_def s' k(3))
  also have "\<dots> = rb_buffer r ! ?t #
      map (\<lambda>i. rb_buffer r ! unat ((tail r + of_nat (Suc i)) AND mask k)) [0..<unat (size_rb r')]"
    using zero by (simp only: upt_conv_Cons [of 0] list.map map_Suc_upt [symmetric] map_map o_def)
  also have "map (\<lambda>i. rb_buffer r ! unat ((tail r + of_nat (Suc i)) AND mask k))
                 [0..<unat (size_rb r')] = contents r'"
    using shift s' slt by (simp add: contents_def m' b')
  finally have "contents r = y # contents r'" by (simp add: y)
  with wf' show ?thesis by (simp add: r' capacity_def)
qed

lemma push_False_same:
  assumes "wf_ring r" "push r x = Some (False, r')"
  shows "r' = r"
  using assms by (simp add: push_wf split: if_splits)

lemma pop_None_same:
  assumes "wf_ring r" "pop r = Some (None, r')"
  shows "r' = r"
  using assms by (simp add: pop_wf split: if_splits)

lemma reachable_wf: "reachable r \<Longrightarrow> wf_ring r"
proof (induction rule: reachable.induct)
  case (reachable_new n d)
  then show ?case by (rule wf_ring_new)
next
  case (reachable_push r x b r')
  then show ?case
    by (cases b) (auto dest: push_True push_False_same)
next
  case (reachable_pop r y r')
  then show ?case
    by (cases y) (auto dest: pop_Some pop_None_same)
qed

text \<open>
  Claim C2. On every ring built by the constructor and used through \<open>push\<close> and
  \<open>pop\<close>: both calls return (neither is \<open>None\<close>, and neither loops); \<open>push\<close> returns
  false exactly when \<open>size() == capacity() - 1\<close>; \<open>pop\<close> returns false exactly when
  \<open>head == tail\<close>; and \<open>size()\<close> never exceeds \<open>capacity() - 1\<close> (it is unsigned, so it
  is never below 0).
\<close>

theorem ring_push_pop_failure_iff:
  assumes "reachable r"
  shows "(\<exists>b r'. push r x = Some (b, r') \<and> (\<not> b \<longleftrightarrow> size_rb r = capacity r - 1)) \<and>
         (\<exists>y r'. pop r = Some (y, r') \<and> (y = None \<longleftrightarrow> head r = tail r)) \<and>
         size_rb r \<le> capacity r - 1"
proof -
  from assms have wf: "wf_ring r" by (rule reachable_wf)
  have "\<exists>b r'. push r x = Some (b, r') \<and> (\<not> b \<longleftrightarrow> size_rb r = capacity r - 1)"
    by (auto simp: push_wf [OF wf])
  moreover have "\<exists>y r'. pop r = Some (y, r') \<and> (y = None \<longleftrightarrow> head r = tail r)"
    by (simp add: pop_wf [OF wf])
  moreover have "size_rb r \<le> capacity r - 1"
  proof -
    from wf obtain k where k: "k < 64" "rb_capacity r = 2 ^ k" by (rule wf_ringE)
    have "unat (capacity r - 1) = unat (capacity r) - 1"
      using k by (simp add: capacity_def unat_pow64_minus1 unat_pow64)
    with size_rb_less [OF wf] show ?thesis by (simp add: word_le_nat_alt)
  qed
  ultimately show ?thesis by blast
qed

subsection \<open>First in, first out\<close>

lemma push_seq_contents:
  assumes "wf_ring r" "push_seq r S = Some (replicate (length S) True, r')"
  shows "wf_ring r' \<and> contents r' = contents r @ S"
  using assms
proof (induction S arbitrary: r)
  case Nil
  then show ?case by simp
next
  case (Cons x S)
  from Cons.prems(2) obtain r1 where p: "push r x = Some (True, r1)"
    and rest: "push_seq r1 S = Some (replicate (length S) True, r')"
    by (auto split: option.splits prod.splits)
  from push_True [OF Cons.prems(1) p] have "wf_ring r1" "contents r1 = contents r @ [x]"
    by simp_all
  with Cons.IH [OF \<open>wf_ring r1\<close> rest] show ?case by simp
qed

lemma contents_Nil_iff:
  assumes "wf_ring r"
  shows "contents r = [] \<longleftrightarrow> head r = tail r"
proof -
  have "contents r = [] \<longleftrightarrow> unat (size_rb r) = 0"
    using length_contents [of r] by (metis length_0_conv)
  then show ?thesis by (simp add: empty_iff_size [OF assms] unat_eq_0)
qed

lemma pop_seq_contents:
  assumes "wf_ring r" "n \<le> length (contents r)"
  shows "\<exists>r'. pop_seq n r = Some (map Some (take n (contents r)), r') \<and> wf_ring r' \<and>
              contents r' = drop n (contents r)"
  using assms
proof (induction n arbitrary: r)
  case 0
  then show ?case by simp
next
  case (Suc n)
  from Suc.prems(2) have "contents r \<noteq> []" by auto
  then have ne: "head r \<noteq> tail r" by (simp add: contents_Nil_iff [OF Suc.prems(1)])
  then obtain y r1 where p: "pop r = Some (Some y, r1)"
    by (simp add: pop_wf [OF Suc.prems(1)])
  from pop_Some [OF Suc.prems(1) p] have r1: "wf_ring r1" "contents r = y # contents r1"
    by simp_all
  with Suc.prems(2) have "n \<le> length (contents r1)" by simp
  from Suc.IH [OF r1(1) this] obtain r' where
    "pop_seq n r1 = Some (map Some (take n (contents r1)), r')" "wf_ring r'"
    "contents r' = drop n (contents r1)" by blast
  with p r1 show ?case by simp
qed

text \<open>
  Claim C3. On an empty ring, after a run of pushes \<open>S\<close> that all returned true and no
  pop in between, the next \<open>|S|\<close> pops all return true and hand back the elements of
  \<open>S\<close> in the order they were pushed; the ring is empty again afterwards.
\<close>

theorem ring_fifo_round_trip:
  assumes "reachable r" and "head r = tail r"
    and "push_seq r S = Some (replicate (length S) True, r')"
  shows "\<exists>r''. pop_seq (length S) r' = Some (map Some S, r'') \<and> head r'' = tail r''"
proof -
  from assms(1) have wf: "wf_ring r" by (rule reachable_wf)
  with assms(2) have "contents r = []" by (simp add: contents_Nil_iff)
  with push_seq_contents [OF wf assms(3)] have r': "wf_ring r'" "contents r' = S" by simp_all
  from pop_seq_contents [OF r'(1), of "length S"] r'(2) obtain r'' where
    "pop_seq (length S) r' = Some (map Some S, r'')" "wf_ring r''" "contents r'' = []"
    by auto
  then show ?thesis by (auto simp: contents_Nil_iff)
qed

subsection \<open>The ring-wrap scenario\<close>

lemma next_power_of_two_4: "next_power_of_two 4 = 4"
  by (simp add: next_power_of_two_def)

lemma RingBuffer_new_4:
  "RingBuffer_new d 4 = \<lparr> head = 0, tail = 0, rb_buffer = [d, d, d, d], rb_capacity = 4, rb_mask = 3 \<rparr>"
proof -
  have "replicate 4 d = [d, d, d, d]"
    by (simp add: numeral_eq_Suc)
  moreover have "unat (4::64 word) = 4"
    by simp
  ultimately show ?thesis
    by (simp add: RingBuffer_new_def next_power_of_two_4)
qed

text \<open>
  Claim C6 says that on a ring of capacity 4 the third push returns false. It returns
  true: three of the four slots are usable.
\<close>

theorem ring_wrap_third_push_succeeds:
  "map_option fst (push_seq (RingBuffer_new (0::nat) 4) [1, 2, 3]) = Some [True, True, True]"
  by (simp add: RingBuffer_new_4 push_def Let_def)

lemma pop_seq_2:
  "pop_seq 2 r =
     (case pop r of
        None \<Rightarrow> None
      | Some (y, r') \<Rightarrow>
          (case pop r' of None \<Rightarrow> None | Some (y', r'') \<Rightarrow> Some ([y, y'], r'')))"
  by (simp add: numeral_2_eq_2 split: option.splits)

text \<open>
  Claim C6, amended. On a ring requested with capacity 4 (rounded to 4), starting empty,
  the first three pushes return true and a fourth returns false (one slot reserved);
  two pops then return the first two elements, and two further pushes both return true.
\<close>

theorem ring_wrap_capacity4:
  "ring_wrap d [a, b, c, e] [f, g] = Some ([True, True, True, False], [Some a, Some b], [True, True])"
  by (simp add: ring_wrap_def RingBuffer_new_4 pop_seq_2 push_def pop_def Let_def)

text \<open>Claim C2 at a fresh ring of capacity 4.\<close>

theorem ring_push_pop_failure_iff_witness:
  "reachable (RingBuffer_new (0::nat) 4) \<and>
   (\<exists>b r'. push (RingBuffer_new (0::nat) 4) 7 = Some (b, r') \<and>
      (\<not> b \<longleftrightarrow> size_rb (RingBuffer_new (0::nat) 4) = capacity (RingBuffer_new (0::nat) 4) - 1)) \<and>
   (\<exists>y r'. pop (RingBuffer_new (0::nat) 4) = Some (y, r') \<and>
      (y = None \<longleftrightarrow> head (RingBuffer_new (0::nat) 4) = tail (RingBuffer_new (0::nat) 4))) \<and>
   size_rb (RingBuffer_new (0::nat) 4) \<le> capacity (RingBuffer_new (0::nat) 4) - 1"
proof -
  have h: "reachable (RingBuffer_new (0::nat) 4)"
    by (rule reachable_new) simp_all
  from ring_push_pop_failure_iff [OF h, of 7] h show ?thesis by simp
qed

text \<open>Claim C3 at a fresh ring of capacity 4 and the run \<open>[5, 6, 7]\<close>.\<close>

theorem ring_fifo_round_trip_witness:
  "reachable (RingBuffer_new (0::nat) 4) \<and>
   head (RingBuffer_new (0::nat) 4) = tail (RingBuffer_new (0::nat) 4) \<and>
   push_seq (RingBuffer_new (0::nat) 4) [5, 6, 7] =
     Some (replicate (length [5, 6, 7::nat]) True,
           \<lparr> head = 3, tail = 0, rb_buffer = [5, 6, 7, 0], rb_capacity = 4, rb_mask = 3 \<rparr>) \<and>
   (\<exists>r''. pop_seq (length [5, 6, 7::nat])
            \<lparr> head = 3, tail = 0, rb_buffer = [5, 6, 7, 0::nat], rb_capacity = 4, rb_mask = 3 \<rparr> =
            Some (map Some [5, 6, 7], r'') \<and> head r'' = tail r'')"
proof -
  have h: "reachable (RingBuffer_new (0::nat) 4)"
    by (rule reachable_new) simp_all
  have e: "head (RingBuffer_new (0::nat) 4) = tail (RingBuffer_new (0::nat) 4)"
    by (simp add: RingBuffer_new_4)
  have p: "push_seq (RingBuffer_new (0::nat) 4) [5, 6, 7] =
     Some (replicate (length [5, 6, 7::nat]) True,
           \<lparr> head = 3, tail = 0, rb_buffer = [5, 6, 7, 0], rb_capacity = 4, rb_mask = 3 \<rparr>)"
    by (simp add: RingBuffer_new_4 push_def Let_def)
  from ring_fifo_round_trip [OF h e p] h e p show ?thesis by blast
qed

section \<open>Properties of the risk engine\<close>

lemma checkOrder_fst:
  "fst (checkOrder e l order latency) \<longleftrightarrow>
     re_running e \<and> gate_order_value e order \<and> gate_position_value e order \<and>
     gate_daily_pnl e \<and> gate_open_orders e"
  by (auto simp: checkOrder_def Let_def gate_order_value_def gate_position_value_def
      gate_daily_pnl_def gate_open_orders_def)

lemma checkOrder_engine:
  "fst (snd (checkOrder e l order latency)) =
     (if re_running e
      then e\<lparr> re_total_checks := re_total_checks e + 1,
              re_total_latency_ns := re_total_latency_ns e + latency \<rparr>
      else e)"
  by (simp add: checkOrder_def Let_def split_def)

lemma log_index_log_re: "log_index (log_re l m) = log_index l + 1"
  by (simp add: log_re_def Let_def)

lemma checkOrder_log:
  "log_index (snd (snd (checkOrder e l order latency))) =
     (if re_running e \<and> \<not> fst (checkOrder e l order latency) then log_index l + 1
      else log_index l)"
  by (simp add: checkOrder_def Let_def split_def log_index_log_re)

lemma checkOrder_stopped: "\<not> re_running e \<Longrightarrow> checkOrder e l order latency = (False, e, l)"
  by (simp add: checkOrder_def)

text \<open>
  Claim C4. \<open>checkOrder\<close> returns true exactly when the engine is running and all four
  gates pass: order value within \<open>max_order_value\<close>, prospective position value of the
  order's symbol slot within \<open>max_position_value\<close> in absolute value, daily PnL not below
  \<open>-daily_loss_limit\<close>, open orders below \<open>max_open_orders\<close>. In particular it returns
  false when the engine is not running.
\<close>

theorem checkOrder_true_iff_gates:
  "fst (checkOrder e l order latency) \<longleftrightarrow>
     re_running e \<and> gate_order_value e order \<and> gate_position_value e order \<and>
     gate_daily_pnl e \<and> gate_open_orders e"
  by (rule checkOrder_fst)

text \<open>
  Claim C10. On an engine that is not running, \<open>checkOrder\<close> returns false and changes
  nothing: the engine (positions, PnL, open orders, \<open>total_checks_\<close> and
  \<open>total_latency_ns_\<close>) and the log are as before, so \<open>getTotalChecks\<close> does not count the
  call.
\<close>

theorem checkOrder_not_running:
  assumes "\<not> re_running e"
  shows "checkOrder e l order latency = (False, e, l) \<and>
         getTotalChecks (fst (snd (checkOrder e l order latency))) = getTotalChecks e \<and>
         re_total_latency_ns (fst (snd (checkOrder e l order latency))) = re_total_latency_ns e"
  using assms by (simp add: checkOrder_stopped)

text \<open>Claim C10 at a freshly constructed engine, which is not running.\<close>

theorem checkOrder_not_running_witness:
  "\<not> re_running (RiskEngine_new test_config) \<and>
   checkOrder (RiskEngine_new test_config) LogState_new test_order2 250 =
     (False, RiskEngine_new test_config, LogState_new) \<and>
   getTotalChecks (fst (snd (checkOrder (RiskEngine_new test_config) LogState_new test_order2 250))) =
     getTotalChecks (RiskEngine_new test_config) \<and>
   re_total_latency_ns (fst (snd (checkOrder (RiskEngine_new test_config) LogState_new test_order2 250))) =
     re_total_latency_ns (RiskEngine_new test_config)"
proof -
  have h: "\<not> re_running (RiskEngine_new test_config)"
    by (simp add: RiskEngine_new_def)
  from checkOrder_not_running [OF h, of LogState_new test_order2 250] h show ?thesis by simp
qed

lemma test_engine_simps:
  "re_running test_engine" "re_config test_engine = test_config" "re_total_checks test_engine = 0"
  by (simp_all add: test_engine_def start_def RiskEngine_new_def)

lemma test_order2_value: "price test_order2 * quantity test_order2 = 20000"
  by (simp add: test_order2_def default_order_def)

lemma test_order2_rejected: "\<not> gate_order_value test_engine test_order2"
  by (simp add: gate_order_value_def test_order2_value test_engine_simps test_config_def)

text \<open>
  Claim C8 says that a call rejected by a gate mutates no engine state. On the running
  test engine, the order worth 20000 fails the order-value gate, \<open>checkOrder\<close> returns
  false, and \<open>total_checks_\<close> goes from 0 to 1: the engine after the call is not the
  engine before it.
\<close>

theorem checkOrder_rejection_counts:
  "\<not> gate_order_value test_engine test_order2 \<and>
   fst (checkOrder test_engine test_log test_order2 250) = False \<and>
   re_total_checks test_engine = 0 \<and>
   re_total_checks (fst (snd (checkOrder test_engine test_log test_order2 250))) = 1 \<and>
   fst (snd (checkOrder test_engine test_log test_order2 250)) \<noteq> test_engine"
proof -
  have c: "re_total_checks (fst (snd (checkOrder test_engine test_log test_order2 250))) = 1"
    by (simp add: checkOrder_engine test_engine_simps)
  then have "fst (snd (checkOrder test_engine test_log test_order2 250)) \<noteq> test_engine"
    using test_engine_simps(3) by (metis zero_neq_one)
  moreover have "fst (checkOrder test_engine test_log test_order2 250) = False"
    using test_order2_rejected by (simp add: checkOrder_fst)
  ultimately show ?thesis using test_order2_rejected c test_engine_simps(3) by simp
qed

text \<open>
  Claim C8, amended. Whenever one of the four gates fails, \<open>checkOrder\<close> returns false and
  leaves every position slot, \<open>daily_pnl\<close>, \<open>open_orders\<close>, the configuration and the
  running flag as they were. On a running engine the call is still counted:
  \<open>total_checks_\<close> grows by one, \<open>total_latency_ns_\<close> by the measured latency, and one
  line is logged. On a stopped engine nothing changes.
\<close>

theorem checkOrder_rejection_frame:
  assumes "\<not> (gate_order_value e order \<and> gate_position_value e order \<and>
              gate_daily_pnl e \<and> gate_open_orders e)"
  shows "fst (checkOrder e l order latency) = False \<and>
         re_positions (fst (snd (checkOrder e l order latency))) = re_positions e \<and>
         re_daily_pnl (fst (snd (checkOrder e l order latency))) = re_daily_pnl e \<and>
         re_open_orders (fst (snd (checkOrder e l order latency))) = re_open_orders e \<and>
         re_config (fst (snd (checkOrder e l order latency))) = re_config e \<and>
         re_running (fst (snd (checkOrder e l order latency))) = re_running e \<and>
         (if re_running e
          then re_total_checks (fst (snd (checkOrder e l order latency))) = re_total_checks e + 1 \<and>
               re_total_latency_ns (fst (snd (checkOrder e l order latency))) =
                 re_total_latency_ns e + latency \<and>
               log_index (snd (snd (checkOrder e l order latency))) = log_index l + 1
          else snd (checkOrder e l order latency) = (e, l))"
proof -
  from assms have f: "fst (checkOrder e l order latency) = False"
    by (auto simp: checkOrder_fst)
  show ?thesis
  proof (cases "re_running e")
    case True
    with f show ?thesis by (simp add: checkOrder_engine checkOrder_log)
  next
    case False
    then show ?thesis by (simp add: checkOrder_stopped)
  qed
qed

text \<open>Claim C8, amended, at the running test engine and the order worth 20000.\<close>

theorem checkOrder_rejection_frame_witness:
  "\<not> (gate_order_value test_engine test_order2 \<and> gate_position_value test_engine test_order2 \<and>
       gate_daily_pnl test_engine \<and> gate_open_orders test_engine) \<and>
   fst (checkOrder test_engine test_log test_order2 250) = False \<and>
   re_positions (fst (snd (checkOrder test_engine test_log test_order2 250))) = re_positions test_engine \<and>
   re_daily_pnl (fst (snd (checkOrder test_engine test_log test_order2 250))) = re_daily_pnl test_engine \<and>
   re_open_orders (fst (snd (checkOrder test_engine test_log test_order2 250))) = re_open_orders test_engine \<and>
   re_total_checks (fst (snd (checkOrder test_engine test_log test_order2 250))) =
     re_total_checks test_engine + 1 \<and>
   re_total_latency_ns (fst (snd (checkOrder test_engine test_log test_order2 250))) =
     re_total_latency_ns test_engine + 250"
proof -
  have h: "\<not> (gate_order_value test_engine test_order2 \<and> gate_position_value test_engine test_order2 \<and>
       gate_daily_pnl test_engine \<and> gate_open_orders test_engine)"
    using test_order2_rejected by simp
  from checkOrder_rejection_frame [OF h, of test_log 250] h test_engine_simps(1)
  show ?thesis by simp
qed

section \<open>Properties of the order manager\<close>

lemma push_room:
  assumes wf: "wf_ring r" and room: "unat (size_rb r) + 1 < unat (capacity r)"
  shows "\<exists>r'. push r x = Some (True, r') \<and> wf_ring r' \<and>
              unat (size_rb r') = unat (size_rb r) + 1 \<and> capacity r' = capacity r"
proof -
  have "size_rb r \<noteq> capacity r - 1"
  proof
    assume "size_rb r = capacity r - 1"
    then have "unat (size_rb r) = unat (capacity r - 1)" by simp
    moreover have "capacity r \<noteq> 0" using room by (auto simp: unat_eq_0)
    ultimately have "unat (size_rb r) = unat (capacity r) - 1" by (simp add: unat_minus_one)
    with room show False by simp
  qed
  then obtain r' where p: "push r x = Some (True, r')"
    by (simp add: push_wf [OF wf])
  from push_True [OF wf p] have "wf_ring r'" "contents r' = contents r @ [x]"
    "capacity r' = capacity r" by simp_all
  moreover from this have "unat (size_rb r') = unat (size_rb r) + 1"
    by (metis length_contents length_append_singleton Suc_eq_plus1)
  ultimately show ?thesis using p by blast
qed

lemma submit_accept:
  assumes room: "rings_room m (Suc k)"
    and noreset: "now - om_last_rate_check m < 1000000000"
    and cnt: "ucast (om_orders_this_second m) < max_orders_per_second (om_config m)"
  shows "\<exists>m'. SubmitOrder m order now = Some (True, m') \<and> rings_room m' k \<and>
           om_orders_this_second m' = om_orders_this_second m + 1 \<and>
           om_last_rate_check m' = om_last_rate_check m \<and>
           om_config m' = om_config m \<and> om_stats m' = om_stats m"
proof -
  let ?q = "om_order_queues m (exchange order)"
  from room have "wf_ring ?q \<and> unat (size_rb ?q) + Suc k < unat (capacity ?q)"
    unfolding rings_room_def by blast
  then have wf: "wf_ring ?q" and r: "unat (size_rb ?q) + 1 < unat (capacity ?q)"
    by simp_all
  from push_room [OF wf r, of order] obtain q' where
    p: "push ?q order = Some (True, q')" and q': "wf_ring q'"
    "unat (size_rb q') = unat (size_rb ?q) + 1" "capacity q' = capacity ?q" by blast
  let ?m' = "m\<lparr> om_orders_this_second := om_orders_this_second m + 1,
                 om_order_queues := (om_order_queues m)(exchange order := q') \<rparr>"
  have "SubmitOrder m order now = Some (True, ?m')"
    using noreset cnt p by (simp add: SubmitOrder_def Let_def not_le [symmetric])
  moreover have "rings_room ?m' k"
    unfolding rings_room_def
  proof
    fix e
    from room have "wf_ring (om_order_queues m e) \<and>
        unat (size_rb (om_order_queues m e)) + Suc k < unat (capacity (om_order_queues m e))"
      unfolding rings_room_def by blast
    with q' show "wf_ring (om_order_queues ?m' e) \<and>
        unat (size_rb (om_order_queues ?m' e)) + k < unat (capacity (om_order_queues ?m' e))"
      by (cases "e = exchange order") simp_all
  qed
  ultimately show ?thesis by simp
qed

lemma submit_accept_reset:
  assumes room: "rings_room m (Suc k)"
    and reset: "now - om_last_rate_check m \<ge> 1000000000"
    and cnt: "0 < max_orders_per_second (om_config m)"
  shows "\<exists>m'. SubmitOrder m order now = Some (True, m') \<and> rings_room m' k \<and>
           om_orders_this_second m' = 1 \<and>
           om_last_rate_check m' = now \<and>
           om_config m' = om_config m \<and> om_stats m' = om_stats m"
proof -
  let ?m0 = "m\<lparr> om_orders_this_second := 0, om_last_rate_check := now \<rparr>"
  have "rings_room ?m0 (Suc k)" using room by (simp add: rings_room_def)
  moreover have "now - om_last_rate_check ?m0 < 1000000000" by simp
  moreover have "ucast (om_orders_this_second ?m0) < max_orders_per_second (om_config ?m0)"
    using cnt by simp
  ultimately obtain m' where m': "SubmitOrder ?m0 order now = Some (True, m')" "rings_room m' k"
    "om_orders_this_second m' = om_orders_this_second ?m0 + 1"
    "om_last_rate_check m' = om_last_rate_check ?m0"
    "om_config m' = om_config ?m0" "om_stats m' = om_stats ?m0"
    using submit_accept [of ?m0 k now order] by blast
  have "SubmitOrder m order now = SubmitOrder ?m0 order now"
    using reset by (simp add: SubmitOrder_def Let_def)
  with m' show ?thesis by simp
qed

lemma submit_reject:
  assumes noreset: "now - om_last_rate_check m < 1000000000"
    and cnt: "max_orders_per_second (om_config m) \<le> ucast (om_orders_this_second m)"
  shows "\<exists>m'. SubmitOrder m order now = Some (False, m') \<and>
           om_order_queues m' = om_order_queues m \<and>
           om_orders_this_second m' = om_orders_this_second m + 1 \<and>
           om_last_rate_check m' = om_last_rate_check m \<and>
           om_config m' = om_config m \<and>
           orders_rejected (om_stats m') = orders_rejected (om_stats m) + 1"
  using assms by (simp add: SubmitOrder_def Let_def)

lemma rings_room_mono: "rings_room m (Suc k) \<Longrightarrow> rings_room m k"
  unfolding rings_room_def by (metis add_Suc_right Suc_lessD)

text \<open>
  Claim C7, amended. With \<open>max_orders_per_second = 3\<close>, take five submissions in clock
  order that fall into one rate window which starts empty: either the counter is 0 and
  the fifth call comes less than a second after \<open>last_rate_check_\<close>, or the first call
  opens a new window and the fifth comes less than a second after the first. With room
  for three more orders in every venue ring, the first three calls return true, the
  last two return false, and \<open>orders_rejected\<close> grows by exactly 2.
\<close>

theorem submit_rate_limit:
  assumes max3: "max_orders_per_second (om_config m) = 3"
    and room: "rings_room m 3"
    and order: "t1 \<le> t2" "t2 \<le> t3" "t3 \<le> t4" "t4 \<le> t5"
    and window: "(om_orders_this_second m = 0 \<and> t5 - om_last_rate_check m < 1000000000) \<or>
                 (1000000000 \<le> t1 - om_last_rate_check m \<and> t5 - t1 < 1000000000)"
  shows "\<exists>m'. submit_seq m [(o1, t1), (o2, t2), (o3, t3), (o4, t4), (o5, t5)] =
                 Some ([True, True, True, False, False], m') \<and>
              orders_rejected (om_stats m') = orders_rejected (om_stats m) + 2"
proof -
  have r3: "rings_room m (Suc 2)" using room by (simp add: numeral_3_eq_3)
  have "\<exists>m1 L. SubmitOrder m o1 t1 = Some (True, m1) \<and> rings_room m1 2 \<and>
          om_orders_this_second m1 = 1 \<and> om_last_rate_check m1 = L \<and>
          t5 - L < 1000000000 \<and> om_config m1 = om_config m \<and> om_stats m1 = om_stats m"
  proof (cases "t1 - om_last_rate_check m < 1000000000")
    case True
    with window have w: "om_orders_this_second m = 0" "t5 - om_last_rate_check m < 1000000000"
      by auto
    have "ucast (om_orders_this_second m) < max_orders_per_second (om_config m)"
      by (simp add: w max3)
    from submit_accept [OF r3 True this, of o1] w show ?thesis by auto
  next
    case False
    with window order have w: "1000000000 \<le> t1 - om_last_rate_check m" "t5 - t1 < 1000000000"
      by auto
    have "0 < max_orders_per_second (om_config m)" by (simp add: max3)
    from submit_accept_reset [OF r3 w(1) this, of o1] w show ?thesis by auto
  qed
  then obtain m1 L where m1: "SubmitOrder m o1 t1 = Some (True, m1)" "rings_room m1 2"
    "om_orders_this_second m1 = 1" "om_last_rate_check m1 = L"
    "om_config m1 = om_config m" "om_stats m1 = om_stats m"
    and L: "t5 - L < 1000000000" by blast
  from L order have Ls: "t2 - L < 1000000000" "t3 - L < 1000000000" "t4 - L < 1000000000"
    by simp_all
  have "rings_room m1 (Suc 1)" using m1(2) by (simp add: numeral_2_eq_2)
  moreover have "t2 - om_last_rate_check m1 < 1000000000" using Ls m1 by simp
  moreover have "ucast (om_orders_this_second m1) < max_orders_per_second (om_config m1)"
    by (simp add: m1 max3)
  ultimately obtain m2 where m2: "SubmitOrder m1 o2 t2 = Some (True, m2)" "rings_room m2 1"
    "om_orders_this_second m2 = 2" "om_last_rate_check m2 = L"
    "om_config m2 = om_config m" "om_stats m2 = om_stats m"
    using submit_accept [of m1 1 t2 o2] m1 by auto
  have "rings_room m2 (Suc 0)" using m2(2) by simp
  moreover have "t3 - om_last_rate_check m2 < 1000000000" using Ls m2 by simp
  moreover have "ucast (om_orders_this_second m2) < max_orders_per_second (om_config m2)"
    by (simp add: m2 max3)
  ultimately obtain m3 where m3: "SubmitOrder m2 o3 t3 = Some (True, m3)"
    "om_orders_this_second m3 = 3" "om_last_rate_check m3 = L"
    "om_config m3 = om_config m" "om_stats m3 = om_stats m"
    using submit_accept [of m2 0 t3 o3] m2 by auto
  have "t4 - om_last_rate_check m3 < 1000000000" using Ls m3 by simp
  moreover have "max_orders_per_second (om_config m3) \<le> ucast (om_orders_this_second m3)"
    by (simp add: m3 max3)
  ultimately obtain m4 where m4: "SubmitOrder m3 o4 t4 = Some (False, m4)"
    "om_orders_this_second m4 = 4" "om_last_rate_check m4 = L"
    "om_config m4 = om_config m" "orders_rejected (om_stats m4) = orders_rejected (om_stats m) + 1"
    using submit_reject [of t4 m3 o4] m3 by auto
  have "t5 - om_last_rate_check m4 < 1000000000" using L m4 by simp
  moreover have "max_orders_per_second (om_config m4) \<le> ucast (om_orders_this_second m4)"
    by (simp add: m4 max3)
  ultimately obtain m5 where m5: "SubmitOrder m4 o5 t5 = Some (False, m5)"
    "orders_rejected (om_stats m5) = orders_rejected (om_stats m) + 2"
    using submit_reject [of t5 m4 o5] m4 by auto
  from m1(1) m2(1) m3(1) m4(1) m5 show ?thesis by simp
qed


lemma rate_limit_manager_simps:
  "max_orders_per_second (om_config rate_limit_manager) = 3"
  "om_orders_this_second rate_limit_manager = 0"
  "om_last_rate_check rate_limit_manager = 0"
  "orders_rejected (om_stats rate_limit_manager) = 0"
  by (simp_all add: rate_limit_manager_def OrderManager_new_def Stats_new_def)

lemma rate_limit_manager_rooms:
  assumes "k < 1048576"
  shows "rings_room rate_limit_manager k"
proof -
  have n: "next_power_of_two 1048576 = 1048576"
    by (simp add: next_power_of_two_def)
  have wf: "wf_ring (RingBuffer_new default_order 1048576)"
    by (rule wf_ring_new) simp_all
  have "size_rb (RingBuffer_new default_order 1048576) = 0"
    by (simp add: size_rb_def RingBuffer_new_def)
  moreover have "unat (capacity (RingBuffer_new default_order 1048576)) = 1048576"
    by (simp add: capacity_def RingBuffer_new_def n)
  ultimately show ?thesis
    using wf assms
    by (simp add: rings_room_def rate_limit_manager_def OrderManager_new_def
        OrderManagerConfig_new_def)
qed

lemma rate_limit_manager_room: "rings_room rate_limit_manager 3"
  by (rule rate_limit_manager_rooms) simp

text \<open>
  Claim C7 at a manager constructed at clock reading 0 with the default ring size, and
  five orders submitted 0.1 s apart.
\<close>

theorem submit_rate_limit_witness:
  "max_orders_per_second (om_config rate_limit_manager) = 3 \<and>
   rings_room rate_limit_manager 3 \<and>
   om_orders_this_second rate_limit_manager = 0 \<and>
   (500000000::int) - om_last_rate_check rate_limit_manager < 1000000000 \<and>
   (\<exists>m'. submit_seq rate_limit_manager
           [(default_order\<lparr> client_order_id := ''a'' \<rparr>, 100000000),
            (default_order\<lparr> client_order_id := ''b'' \<rparr>, 200000000),
            (default_order\<lparr> client_order_id := ''c'' \<rparr>, 300000000),
            (default_order\<lparr> client_order_id := ''d'' \<rparr>, 400000000),
            (default_order\<lparr> client_order_id := ''e'' \<rparr>, 500000000)] =
           Some ([True, True, True, False, False], m') \<and>
         orders_rejected (om_stats m') = orders_rejected (om_stats rate_limit_manager) + 2)"
proof -
  have c: "max_orders_per_second (om_config rate_limit_manager) = 3"
    by (simp add: rate_limit_manager_def OrderManager_new_def)
  have z: "om_orders_this_second rate_limit_manager = 0"
    "om_last_rate_check rate_limit_manager = 0"
    by (simp_all add: rate_limit_manager_def OrderManager_new_def)
  have w: "(om_orders_this_second rate_limit_manager = 0 \<and>
            500000000 - om_last_rate_check rate_limit_manager < 1000000000) \<or>
           (1000000000 \<le> 100000000 - om_last_rate_check rate_limit_manager \<and>
            (500000000::int) - 100000000 < 1000000000)"
    by (simp add: z)
  have t: "(100000000::int) \<le> 200000000" "(200000000::int) \<le> 300000000"
    "(300000000::int) \<le> 400000000" "(400000000::int) \<le> 500000000"
    by simp_all
  from submit_rate_limit [OF c rate_limit_manager_room t w] c rate_limit_manager_room z
  show ?thesis by simp
qed

text \<open>
  Claim C7 says that of five orders submitted within one second the last two are
  rejected. A manager is constructed at clock reading 0 and takes five orders at 0.5,
  0.6, 1.0, 1.1 and 1.2 s, all within 0.7 s. The third call comes a full second after
  \<open>last_rate_check_\<close> and opens a new window, so the counter restarts: all five calls
  return true and nothing is rejected.
\<close>

theorem submit_window_boundary_accepts_five:
  "map_option (\<lambda>(bs, m'). (bs, orders_rejected (om_stats m')))
     (submit_seq rate_limit_manager
        [(default_order, 500000000), (default_order, 600000000), (default_order, 1000000000),
         (default_order, 1100000000), (default_order, 1200000000)])
   = Some ([True, True, True, True, True], 0)"
proof -
  note z = rate_limit_manager_simps
  have r5: "rings_room rate_limit_manager (Suc 4)"
    by (rule rate_limit_manager_rooms) simp
  have "ucast (om_orders_this_second rate_limit_manager)
          < max_orders_per_second (om_config rate_limit_manager)"
    by (simp add: z)
  moreover have "500000000 - om_last_rate_check rate_limit_manager < 1000000000"
    by (simp add: z)
  ultimately obtain m1 where m1:
    "SubmitOrder rate_limit_manager default_order 500000000 = Some (True, m1)"
    "rings_room m1 4" "om_orders_this_second m1 = 1" "om_last_rate_check m1 = 0"
    "max_orders_per_second (om_config m1) = 3" "orders_rejected (om_stats m1) = 0"
    using submit_accept [OF r5, of 500000000 default_order] by (auto simp: z)
  have "rings_room m1 (Suc 3)" using m1(2) by simp
  moreover have "600000000 - om_last_rate_check m1 < 1000000000" by (simp add: m1)
  moreover have "ucast (om_orders_this_second m1) < max_orders_per_second (om_config m1)"
    by (simp add: m1)
  ultimately obtain m2 where m2:
    "SubmitOrder m1 default_order 600000000 = Some (True, m2)"
    "rings_room m2 3" "om_orders_this_second m2 = 2" "om_last_rate_check m2 = 0"
    "max_orders_per_second (om_config m2) = 3" "orders_rejected (om_stats m2) = 0"
    using submit_accept [of m1 3 600000000 default_order] m1 by auto
  have "rings_room m2 (Suc 2)" using m2(2) by (simp add: numeral_3_eq_3)
  moreover have "1000000000 \<le> 1000000000 - om_last_rate_check m2" by (simp add: m2)
  moreover have "0 < max_orders_per_second (om_config m2)" by (simp add: m2)
  ultimately obtain m3 where m3:
    "SubmitOrder m2 default_order 1000000000 = Some (True, m3)"
    "rings_room m3 2" "om_orders_this_second m3 = 1" "om_last_rate_check m3 = 1000000000"
    "max_orders_per_second (om_config m3) = 3" "orders_rejected (om_stats m3) = 0"
    using submit_accept_reset [of m2 2 1000000000 default_order] m2 by auto
  have "rings_room m3 (Suc 1)" using m3(2) by (simp add: numeral_2_eq_2)
  moreover have "1100000000 - om_last_rate_check m3 < 1000000000" by (simp add: m3)
  moreover have "ucast (om_orders_this_second m3) < max_orders_per_second (om_config m3)"
    by (simp add: m3)
  ultimately obtain m4 where m4:
    "SubmitOrder m3 default_order 1100000000 = Some (True, m4)"
    "rings_room m4 1" "om_orders_this_second m4 = 2" "om_last_rate_check m4 = 1000000000"
    "max_orders_per_second (om_config m4) = 3" "orders_rejected (om_stats m4) = 0"
    using submit_accept [of m3 1 1100000000 default_order] m3 by auto
  have "rings_room m4 (Suc 0)" using m4(2) by simp
  moreover have "1200000000 - om_last_rate_check m4 < 1000000000" by (simp add: m4)
  moreover have "ucast (om_orders_this_second m4) < max_orders_per_second (om_config m4)"
    by (simp add: m4)
  ultimately obtain m5 where m5:
    "SubmitOrder m4 default_order 1200000000 = Some (True, m5)"
    "orders_rejected (om_stats m5) = 0"
    using submit_accept [of m4 0 1200000000 default_order] m4 by auto
  from m1(1) m2(1) m3(1) m4(1) m5 show ?thesis by simp
qed

section \<open>Properties of the arbitrage detector\<close>

lemma checkArbitrageOpportunity_no_edge:
  "pf_bid_price sell - pf_ask_price buy \<le> 0 \<Longrightarrow>
   checkArbitrageOpportunity d buy sell symbol_arg timestamp = Some d"
  by (simp only: checkArbitrageOpportunity_def Let_def if_True)

lemma not_dlt_Fin: "\<not> dlt x (Fin a) \<Longrightarrow> x \<noteq> NaN \<Longrightarrow> dge x (Fin a)"
  by (cases x) (simp_all add: dge_def)

text \<open>
  With a non-zero ask price every quotient is finite, and an opportunity that is pushed
  has passed both threshold guards.
\<close>

lemma checkArbitrageOpportunity_emits:
  assumes run: "checkArbitrageOpportunity d buy sell symbol_arg timestamp = Some d'"
    and ask: "pf_ask_price buy \<noteq> 0"
  shows "d' = d \<or>
          (\<exists>opp. push (ad_opportunity_buffer d) opp = Some (True, ad_opportunity_buffer d') \<and>
                 ad_detected_count d' = ad_detected_count d + 1 \<and>
                 ad_config d' = ad_config d \<and>
                 meets_thresholds (ad_config d) opp)"
proof -
  define pd where "pd = pf_bid_price sell - pf_ask_price buy"
  define pr where "pr = ddiv (Fin pd) (Fin (pf_ask_price buy))"
  define bf where "bf = calculateFee (ad_config d) (pf_exchange buy) (pf_ask_price buy) True"
  define sf where "sf = calculateFee (ad_config d) (pf_exchange sell) (pf_bid_price sell) True"
  define npr where "npr = dsub pr (ddiv (Fin (bf + sf)) (Fin (pf_ask_price buy)))"
  define mq0 where "mq0 = min (pf_ask_quantity buy) (pf_bid_quantity sell)"
  define mqv where "mqv = (if mq0 * pf_ask_price buy > max_position_size (ad_config d)
                    then (ddiv (Fin (max_position_size (ad_config d))) (Fin (pf_ask_price buy)),
                          max_position_size (ad_config d))
                    else (Fin mq0, mq0 * pf_ask_price buy))"
  define np where "np = dsub (dmul (fst mqv) (Fin pd)) (dmul (fst mqv) (Fin (bf + sf)))"
  define opp where "opp = ArbitrageOpportunity_new
                                \<lparr> opp_id := take 63 (symbol_arg @ ''_'' @ pf_exchange buy @ ''_'' @
                                                     pf_exchange sell @ ''_'' @
                                                     decimal (unat timestamp)),
                                  opp_symbol := take 15 symbol_arg,
                                  buy_exchange := take 15 (pf_exchange buy),
                                  sell_exchange := take 15 (pf_exchange sell),
                                  buy_price := pf_ask_price buy,
                                  sell_price := pf_bid_price sell,
                                  max_quantity := fst mqv,
                                  profit_rate := npr,
                                  net_profit := np,
                                  detected_at_ns := timestamp,
                                  valid_until_ns := timestamp + opportunity_ttl_ns (ad_config d) \<rparr>"
  let ?push = "case push (ad_opportunity_buffer d) opp of
              None \<Rightarrow> None
            | Some (pushed, buffer) \<Rightarrow>
                if pushed
                then Some (d\<lparr> ad_opportunity_buffer := buffer,
                              ad_detected_count := ad_detected_count d + 1 \<rparr>)
                else Some d"
  have eq: "checkArbitrageOpportunity d buy sell symbol_arg timestamp =
     (if pd \<le> 0 then Some d
      else if dlt pr (Fin (min_profit_rate (ad_config d))) then Some d
      else if dlt npr (Fin (min_profit_rate (ad_config d))) then Some d
      else if dlt np (Fin (min_profit_amount (ad_config d))) then Some d
      else ?push)"
    unfolding checkArbitrageOpportunity_def Let_def split_def
      opp_def np_def mqv_def mq0_def npr_def sf_def bf_def pr_def pd_def
    by (rule refl)
  have pn: "profit_rate opp = npr" "net_profit opp = np"
    by (simp_all add: opp_def)
  have npr_fin: "npr \<noteq> NaN"
    using ask by (simp add: npr_def pr_def dsub_def)
  have mq_fin: "\<exists>q. fst mqv = Fin q"
    using ask by (simp add: mqv_def)
  then have np_fin: "np \<noteq> NaN"
    by (auto simp: np_def dsub_def)
  show ?thesis
  proof (cases "pd \<le> 0 \<or> dlt pr (Fin (min_profit_rate (ad_config d))) \<or>
                dlt npr (Fin (min_profit_rate (ad_config d))) \<or>
                dlt np (Fin (min_profit_amount (ad_config d)))")
    case True
    with run eq have "d' = d" by (auto split: if_splits)
    then show ?thesis ..
  next
    case False
    with run eq have c: "?push = Some d'" by simp
    show ?thesis
    proof (cases "push (ad_opportunity_buffer d) opp")
      case None
      with c show ?thesis by simp
    next
      case (Some pb)
      obtain pushed buffer where pb: "pb = (pushed, buffer)" by (cases pb)
      show ?thesis
      proof (cases pushed)
        case True
        with c Some pb have d': "d' = d\<lparr> ad_opportunity_buffer := buffer,
                                         ad_detected_count := ad_detected_count d + 1 \<rparr>"
          by simp
        have "push (ad_opportunity_buffer d) opp = Some (True, ad_opportunity_buffer d')"
          using Some pb True by (simp add: d')
        moreover have "meets_thresholds (ad_config d) opp"
          using False npr_fin np_fin by (simp add: meets_thresholds_def pn not_dlt_Fin)
        ultimately show ?thesis
          by (intro disjI2 exI [of _ opp]) (simp add: d')
      next
        case False
        with c Some pb have "d' = d" by simp
        then show ?thesis ..
      qed
    qed
  qed
qed

lemma scenario_fees:
  "calculateFee scenario_config ''A'' 0 True = 0"
  "calculateFee scenario_config ''B'' (201 / 2) True = 201 / 2000"
  by (simp_all add: calculateFee_def scenario_config_def ArbitrageConfig_new_def)

lemma scenario_detector_simps:
  "ad_config (ArbitrageDetector_new scenario_config) = scenario_config"
  "ad_detected_count (ArbitrageDetector_new scenario_config) = 0"
  "ad_opportunity_buffer (ArbitrageDetector_new scenario_config) =
     RingBuffer_new ArbitrageOpportunity_new 1024"
  "min_profit_rate scenario_config = 1 / 1000"
  "min_profit_amount scenario_config = 1 / 10"
  "max_position_size scenario_config = 1000"
  by (simp_all add: ArbitrageDetector_new_def scenario_config_def ArbitrageConfig_new_def
      OPPORTUNITY_BUFFER_SIZE_def)

lemma scenario_ring:
  "push (RingBuffer_new ArbitrageOpportunity_new 1024) x =
     Some (True, (RingBuffer_new ArbitrageOpportunity_new 1024)
       \<lparr> rb_buffer := (rb_buffer (RingBuffer_new ArbitrageOpportunity_new 1024))[0 := x],
         head := 1 \<rparr>)"
proof -
  have "next_power_of_two 1024 = 1024" by (simp add: next_power_of_two_def)
  then show ?thesis by (simp add: push_def RingBuffer_new_def Let_def)
qed

lemma scenario_contents:
  "contents ((RingBuffer_new ArbitrageOpportunity_new 1024)
       \<lparr> rb_buffer := (rb_buffer (RingBuffer_new ArbitrageOpportunity_new 1024))[0 := x],
         head := 1 \<rparr>) = [x]"
proof -
  have "next_power_of_two 1024 = 1024" by (simp add: next_power_of_two_def)
  then show ?thesis by (simp add: contents_def size_rb_def RingBuffer_new_def)
qed

text \<open>
  Claim C1 says that every opportunity pushed to the outbound ring meets both
  thresholds. Venue A reports an ask price of 0 and venue B bids 100.5. The edge is
  positive, the profit rate is an infinity, the fee rate is an infinity, their
  difference is a NaN, and no \<open><\<close> guard rejects a NaN: the call pushes an opportunity,
  counts it, and the opportunity in the ring has the profit rate NaN, which is not
  \<open>\<ge> min_profit_rate\<close>.
\<close>

theorem arbitrage_zero_ask_emits_nan:
  "0 < pf_bid_price feed_B - pf_ask_price feed_A_zero_ask \<and>
   map_option (\<lambda>d'. (ad_detected_count d',
                     map profit_rate (contents (ad_opportunity_buffer d')),
                     map (meets_thresholds scenario_config) (contents (ad_opportunity_buffer d'))))
     (checkArbitrageOpportunity (ArbitrageDetector_new scenario_config)
        feed_A_zero_ask feed_B ''X'' 7)
   = Some (1, [NaN], [False])"
  by (simp add: checkArbitrageOpportunity_def Let_def scenario_fees scenario_detector_simps
      feed_A_zero_ask_def feed_A_def feed_B_def scenario_ring scenario_contents
      dsub_def dge_def meets_thresholds_def)

section \<open>Properties of the market maker\<close>

lemma clamp_finite:
  "\<exists>r. std_max (Fin a) (std_min (Fin b) s) = Fin r \<and> a \<le> r"
  by (cases s) (auto simp: std_min_def std_max_def)

text \<open>
  Whatever the quotient by \<open>max_inventory\<close> gives, the clamp of \<open>calculateSpread\<close>
  returns a finite spread, at least the minimum spread.
\<close>

lemma calculateSpread_finite:
  "\<exists>r. calculateSpread config market inventory = Fin r \<and> min_spread_bps config / 10000 \<le> r"
  unfolding calculateSpread_def Let_def by (rule clamp_finite)

lemma level_quote_price_Fin:
  "level_quote_price config BUY mid (Fin sp) level =
     Fin (mid - mid * (sp * (1 + real_of_int level * level_spacing_bps config / 10000)))"
  "level_quote_price config SELL mid (Fin sp) level =
     Fin (mid + mid * (sp * (1 + real_of_int level * level_spacing_bps config / 10000)))"
  by (simp_all add: level_quote_price_def Let_def dsub_def algebra_simps)

lemma level_spread_mono:
  fixes spread s :: real
  assumes "0 \<le> spread" "0 \<le> s" "0 \<le> L" "L \<le> L'"
  shows "0 \<le> spread * (1 + real_of_int L * s / 10000)"
    and "spread * (1 + real_of_int L * s / 10000) \<le> spread * (1 + real_of_int L' * s / 10000)"
proof -
  have a: "0 \<le> real_of_int L * s" using assms by simp
  then show "0 \<le> spread * (1 + real_of_int L * s / 10000)"
    using assms(1) by simp
  have "real_of_int L * s \<le> real_of_int L' * s"
    using assms by (simp add: mult_right_mono)
  then have "1 + real_of_int L * s / 10000 \<le> 1 + real_of_int L' * s / 10000"
    by (simp add: divide_right_mono)
  then show "spread * (1 + real_of_int L * s / 10000) \<le> spread * (1 + real_of_int L' * s / 10000)"
    using assms(1) by (rule mult_left_mono)
qed

lemma generateQuoteLevel_written:
  assumes "active_quotes m < MAX_QUOTES"
  shows "q_price (current_quotes (generateQuoteLevel m s sd mid spread level now)
                   (unat (active_quotes m))) =
           apply_inventory_skew (mm_config m) (inventory_state m) sd
             (level_quote_price (mm_config m) sd mid spread level)"
  using assms by (simp add: generateQuoteLevel_def Let_def not_le [symmetric])

text \<open>
  Claim C9. Take \<open>min_spread_bps \<ge> 0\<close>, \<open>level_spacing_bps \<ge> 0\<close>, \<open>mid_price > 0\<close> and a free
  slot, and let \<open>generateQuoteLevel\<close> be called as \<open>generateQuotes\<close> calls it, with the mid
  of the market snapshot and the spread of \<open>calculateSpread\<close>, at a level \<open>L\<close> (levels
  count from 0) and at a higher level \<open>L'\<close>. The price in the slot it writes is the
  inventory skew applied to a finite price \<open>p\<close>, its price before the skew; \<open>p\<close> is at
  most the mid on the buy side and at least the mid on the sell side, and its distance
  from the mid at level \<open>L\<close> is at most that of its counterpart \<open>p'\<close> at level \<open>L'\<close>.
\<close>

theorem quote_levels_around_mid:
  assumes "0 \<le> min_spread_bps (mm_config m)" and "0 \<le> level_spacing_bps (mm_config m)"
    and "0 < mid_price (market_state m)"
    and "active_quotes m < MAX_QUOTES"
    and "0 \<le> L" and "L \<le> L'"
  shows "\<exists>p p'.
           level_quote_price (mm_config m) side_arg (mid_price (market_state m))
             (calculateSpread (mm_config m) (market_state m) (inventory_state m)) L = Fin p \<and>
           level_quote_price (mm_config m) side_arg (mid_price (market_state m))
             (calculateSpread (mm_config m) (market_state m) (inventory_state m)) L' = Fin p' \<and>
           q_price (current_quotes
                     (generateQuoteLevel m symbol_arg side_arg (mid_price (market_state m))
                        (calculateSpread (mm_config m) (market_state m) (inventory_state m)) L now)
                     (unat (active_quotes m))) =
             apply_inventory_skew (mm_config m) (inventory_state m) side_arg (Fin p) \<and>
           q_price (current_quotes
                     (generateQuoteLevel m symbol_arg side_arg (mid_price (market_state m))
                        (calculateSpread (mm_config m) (market_state m) (inventory_state m)) L' now)
                     (unat (active_quotes m))) =
             apply_inventory_skew (mm_config m) (inventory_state m) side_arg (Fin p') \<and>
           (if side_arg = BUY then p \<le> mid_price (market_state m)
            else mid_price (market_state m) \<le> p) \<and>
           \<bar>p - mid_price (market_state m)\<bar> \<le> \<bar>p' - mid_price (market_state m)\<bar>"
proof -
  let ?mid = "mid_price (market_state m)" and ?s = "level_spacing_bps (mm_config m)"
  from calculateSpread_finite [of "mm_config m" "market_state m" "inventory_state m"]
  obtain sp where sp: "calculateSpread (mm_config m) (market_state m) (inventory_state m) = Fin sp"
    and lo: "min_spread_bps (mm_config m) / 10000 \<le> sp" by blast
  from lo assms(1) have sp0: "0 \<le> sp" by simp
  let ?ls = "\<lambda>l. sp * (1 + real_of_int l * ?s / 10000)"
  have l0: "0 \<le> ?ls L" and l1: "?ls L \<le> ?ls L'"
    using level_spread_mono [OF sp0 assms(2,5,6)] by simp_all
  have l0': "0 \<le> ?ls L'" using l0 l1 by simp
  have m0: "0 \<le> ?mid * ?ls L" using assms(3) l0 by simp
  have m0': "0 \<le> ?mid * ?ls L'" using assms(3) l0' by simp
  have m1: "?mid * ?ls L \<le> ?mid * ?ls L'"
    using l1 assms(3) by (simp add: mult_left_mono)
  show ?thesis
  proof (cases side_arg)
    case BUY
    show ?thesis
      unfolding sp generateQuoteLevel_written [OF assms(4)] BUY level_quote_price_Fin
      using m0 m0' m1
      by (intro exI [of _ "?mid - ?mid * ?ls L"] exI [of _ "?mid - ?mid * ?ls L'"]) simp
  next
    case SELL
    show ?thesis
      unfolding sp generateQuoteLevel_written [OF assms(4)] SELL level_quote_price_Fin
      using m0 m0' m1
      by (intro exI [of _ "?mid + ?mid * ?ls L"] exI [of _ "?mid + ?mid * ?ls L'"]) simp
  qed
qed

lemma full_ring_engine_simps:
  "mm_running full_ring_engine"
  "mm_config full_ring_engine = MarketMakerConfig_new"
  "quotes_generated full_ring_engine = 0"
  "active_quotes full_ring_engine = 0"
  "mid_price (market_state full_ring_engine) = 100"
  "bid_price (market_state full_ring_engine) = 99"
  "ask_price (market_state full_ring_engine) = 101"
  by (simp_all add: full_ring_engine_def MarketMakerEngine_new_def MarketSnapshot_new_def)

text \<open>
  Claim C9 at the running engine with the default configuration and a mid of 100, for
  the bids of levels 0 and 1.
\<close>

theorem quote_levels_around_mid_witness:
  "0 \<le> min_spread_bps (mm_config full_ring_engine) \<and>
   0 \<le> level_spacing_bps (mm_config full_ring_engine) \<and>
   0 < mid_price (market_state full_ring_engine) \<and>
   active_quotes full_ring_engine < MAX_QUOTES \<and>
   (\<exists>p p'.
      q_price (current_quotes
                (generateQuoteLevel full_ring_engine ''BTCUSDT'' BUY
                   (mid_price (market_state full_ring_engine))
                   (calculateSpread (mm_config full_ring_engine) (market_state full_ring_engine)
                      (inventory_state full_ring_engine)) 0 7)
                (unat (active_quotes full_ring_engine))) =
        apply_inventory_skew (mm_config full_ring_engine) (inventory_state full_ring_engine)
          BUY (Fin p) \<and>
      q_price (current_quotes
                (generateQuoteLevel full_ring_engine ''BTCUSDT'' BUY
                   (mid_price (market_state full_ring_engine))
                   (calculateSpread (mm_config full_ring_engine) (market_state full_ring_engine)
                      (inventory_state full_ring_engine)) 1 7)
                (unat (active_quotes full_ring_engine))) =
        apply_inventory_skew (mm_config full_ring_engine) (inventory_state full_ring_engine)
          BUY (Fin p') \<and>
      p \<le> mid_price (market_state full_ring_engine) \<and>
      \<bar>p - mid_price (market_state full_ring_engine)\<bar>
        \<le> \<bar>p' - mid_price (market_state full_ring_engine)\<bar>)"
proof -
  have a: "0 \<le> min_spread_bps (mm_config full_ring_engine)"
    "0 \<le> level_spacing_bps (mm_config full_ring_engine)"
    by (simp_all add: full_ring_engine_simps MarketMakerConfig_new_def)
  have b: "0 < mid_price (market_state full_ring_engine)"
    by (simp add: full_ring_engine_simps)
  have c: "active_quotes full_ring_engine < MAX_QUOTES"
    by (simp add: full_ring_engine_simps MAX_QUOTES_def)
  have d: "(0::int) \<le> 0" "(0::int) \<le> 1" by simp_all
  from quote_levels_around_mid [OF a b c d, of BUY "''BTCUSDT''" 7] a b c
  show ?thesis by auto
qed

lemma default_spread:
  "calculateSpread MarketMakerConfig_new (market_state full_ring_engine)
     (inventory_state full_ring_engine) = Fin (1 / 1000)"
  by (simp add: calculateSpread_def getInventorySkew_def Let_def MarketMakerConfig_new_def
      full_ring_engine_def MarketMakerEngine_new_def InventorySnapshot_new_def
      MarketSnapshot_new_def std_min_def std_max_def)

lemma push_full:
  assumes "(head r + 1) AND rb_mask r = tail r"
  shows "push r x = Some (False, r)"
  using assms by (simp add: push_def Let_def)

lemma push_quotes_loop_full:
  assumes "(head (quote_buffer m) + 1) AND rb_mask (quote_buffer m) = tail (quote_buffer m)"
  shows "push_quotes_loop m i n =
           Some (m\<lparr> quotes_generated := quotes_generated m + of_nat (n - i) \<rparr>)"
  using assms
proof (induction m i n rule: push_quotes_loop.induct)
  case (1 m i quote_count)
  show ?case
  proof (cases "i < quote_count")
    case False
    then show ?thesis by (simp add: push_quotes_loop.simps)
  next
    case True
    let ?m1 = "m\<lparr> quote_buffer := quote_buffer m, quotes_generated := quotes_generated m + 1 \<rparr>"
    have p: "push (quote_buffer m) (current_quotes m i) = Some (False, quote_buffer m)"
      using "1.prems" by (rule push_full)
    have "push_quotes_loop ?m1 (i + 1) quote_count =
            Some (?m1\<lparr> quotes_generated := quotes_generated ?m1 + of_nat (quote_count - (i + 1)) \<rparr>)"
      using "1.IH" [OF True p refl] "1.prems" by simp
    moreover have "of_nat (quote_count - i) = (1::64 word) + of_nat (quote_count - (i + 1))"
      using True by (metis Suc_diff_Suc Suc_eq_plus1 of_nat_Suc diff_diff_left)
    ultimately show ?thesis
      using True p by (subst push_quotes_loop.simps) (simp add: add.assoc)
  qed
qed

lemma generateQuoteLevel_slot:
  assumes "active_quotes m < MAX_QUOTES"
  shows "active_quotes (generateQuoteLevel m s sd mid spread level now) = active_quotes m + 1 \<and>
         quote_buffer (generateQuoteLevel m s sd mid spread level now) = quote_buffer m \<and>
         quotes_generated (generateQuoteLevel m s sd mid spread level now) = quotes_generated m \<and>
         mm_config (generateQuoteLevel m s sd mid spread level now) = mm_config m"
  using assms by (simp add: generateQuoteLevel_def Let_def not_le [symmetric])

lemma active_quotes_step:
  fixes a :: "64 word"
  assumes "unat a < 20"
  shows "a < MAX_QUOTES" and "unat (a + 1) = unat a + 1"
proof -
  show "a < MAX_QUOTES" using assms by (simp add: MAX_QUOTES_def word_less_nat_alt)
  have "unat a + 1 < 2 ^ 64" using assms by simp
  then show "unat (a + 1) = unat a + 1" by (simp add: unat_word_ariths)
qed

lemma levels_loop_frame:
  assumes "unat (active_quotes m) + 2 * nat (n - level) \<le> 20"
  shows "unat (active_quotes (levels_loop n m mid spread level clock)) =
           unat (active_quotes m) + 2 * nat (n - level) \<and>
         quote_buffer (levels_loop n m mid spread level clock) = quote_buffer m \<and>
         quotes_generated (levels_loop n m mid spread level clock) = quotes_generated m"
  using assms
proof (induction n m mid spread level clock rule: levels_loop.induct)
  case (1 n m mid spread level clock)
  show ?case
  proof (cases "level < n")
    case False
    then show ?thesis by (simp add: levels_loop.simps)
  next
    case True
    then have step: "nat (n - level) = Suc (nat (n - (level + 1)))" by simp
    with "1.prems" have a0: "unat (active_quotes m) < 20" by simp
    define m1 where "m1 = generateQuoteLevel m ''BTCUSDT'' BUY mid spread level (clock level BUY)"
    define m2 where "m2 = generateQuoteLevel m1 ''BTCUSDT'' SELL mid spread level (clock level SELL)"
    have s1: "active_quotes m1 = active_quotes m + 1" "quote_buffer m1 = quote_buffer m"
      "quotes_generated m1 = quotes_generated m"
      using generateQuoteLevel_slot [OF active_quotes_step(1) [OF a0]] by (simp_all add: m1_def)
    have u1: "unat (active_quotes m1) = unat (active_quotes m) + 1"
      using active_quotes_step(2) [OF a0] s1(1) by simp
    with "1.prems" step have a1: "unat (active_quotes m1) < 20" by simp
    have s2: "active_quotes m2 = active_quotes m1 + 1" "quote_buffer m2 = quote_buffer m1"
      "quotes_generated m2 = quotes_generated m1"
      using generateQuoteLevel_slot [OF active_quotes_step(1) [OF a1]] by (simp_all add: m2_def)
    have u2: "unat (active_quotes m2) = unat (active_quotes m) + 2"
      using active_quotes_step(2) [OF a1] s2(1) u1 by simp
    have r2: "unat (active_quotes m2) + 2 * nat (n - (level + 1)) \<le> 20"
      using "1.prems" step u2 by simp
    have ih: "unat (active_quotes (levels_loop n m2 mid spread (level + 1) clock)) =
           unat (active_quotes m2) + 2 * nat (n - (level + 1)) \<and>
         quote_buffer (levels_loop n m2 mid spread (level + 1) clock) = quote_buffer m2 \<and>
         quotes_generated (levels_loop n m2 mid spread (level + 1) clock) = quotes_generated m2"
      using "1.IH" [OF True m1_def m2_def r2] .
    have "levels_loop n m mid spread level clock = levels_loop n m2 mid spread (level + 1) clock"
      using True by (subst levels_loop.simps) (simp add: m1_def m2_def Let_def)
    then show ?thesis
      using ih s1 s2 u2 step by simp
  qed
qed

lemma full_ring_engine_ring:
  "head (quote_buffer full_ring_engine) = 1023"
  "tail (quote_buffer full_ring_engine) = 0"
  "rb_mask (quote_buffer full_ring_engine) = 1023"
  "rb_capacity (quote_buffer full_ring_engine) = 1024"
proof -
  have "next_power_of_two 1024 = 1024" by (simp add: next_power_of_two_def)
  then show "head (quote_buffer full_ring_engine) = 1023"
    "tail (quote_buffer full_ring_engine) = 0"
    "rb_mask (quote_buffer full_ring_engine) = 1023"
    "rb_capacity (quote_buffer full_ring_engine) = 1024"
    by (simp_all add: full_ring_engine_def MarketMakerEngine_new_def RingBuffer_new_def
        QUOTE_BUFFER_SIZE_def)
qed

text \<open>
  Claim C5 says that a quote whose push fails is not counted. On the running engine
  whose outbound ring is full, \<open>generateQuotes\<close> builds the six quotes of the three
  default levels; every push returns false and the ring stays as it was, yet
  \<open>quotes_generated\<close> goes from 0 to 6: the loop ignores what \<open>push\<close> returns.
\<close>

theorem generateQuotes_counts_failed_pushes:
  "\<exists>m'. generateQuotes full_ring_engine clock = Some m' \<and>
         size_rb (quote_buffer full_ring_engine) = capacity (quote_buffer full_ring_engine) - 1 \<and>
         quote_buffer m' = quote_buffer full_ring_engine \<and>
         quotes_generated full_ring_engine = 0 \<and>
         quotes_generated m' = 6"
proof -
  let ?m0 = "full_ring_engine\<lparr> active_quotes := 0 \<rparr>"
  define m1 where "m1 = levels_loop 3 ?m0 100 (Fin (1 / 1000)) 0 clock"
  have r0: "unat (active_quotes ?m0) + 2 * nat (3 - 0) \<le> 20"
    by simp
  from levels_loop_frame [OF r0, of 100 "Fin (1 / 1000)" clock]
  have m1: "unat (active_quotes m1) = 6" "quote_buffer m1 = quote_buffer full_ring_engine"
    "quotes_generated m1 = 0"
    by (simp_all add: m1_def full_ring_engine_simps)
  have full: "(head (quote_buffer m1) + 1) AND rb_mask (quote_buffer m1) = tail (quote_buffer m1)"
    by (simp add: m1(2) full_ring_engine_ring)
  have p: "push_quotes_loop m1 0 6 = Some (m1\<lparr> quotes_generated := 6 \<rparr>)"
    using push_quotes_loop_full [OF full, of 0 6] by (simp add: m1(3))
  have q: "quote_levels MarketMakerConfig_new = 3"
    by (simp add: MarketMakerConfig_new_def)
  have g: "generateQuotes full_ring_engine clock = Some (m1\<lparr> quotes_generated := 6 \<rparr>)"
    using default_spread m1(1) p
    by (simp add: generateQuotes_def Let_def full_ring_engine_simps q m1_def [symmetric])
  have s: "size_rb (quote_buffer full_ring_engine) = capacity (quote_buffer full_ring_engine) - 1"
    by (simp add: size_rb_def capacity_def full_ring_engine_ring)
  from g s m1(2) show ?thesis
    by (simp add: full_ring_engine_simps)
qed

end
